theory Spec2Isabelle
  imports Complex_Main "HOL-Library.Word"
begin

section \<open>Conventions of the embedding\<close>

text \<open>
  The development embeds the Mandelbrot generator: \<^verbatim>\<open>quadtree.py\<close> (regions, subdivision and
  area fill), the two point evaluators (\<^verbatim>\<open>Normal/util.py\<close> and
  \<^verbatim>\<open>Accelerated/calculation.py\<close>), the border scanners and the rendering loops.

  \<^item> Pixel indices (\<^verbatim>\<open>np.int32\<close> in the source) are \<open>int\<close>; images are far below the
    32-bit range, so wrap-around plays no role.
  \<^item> 64-bit floating point numbers are idealised as \<open>real\<close>: rounding, overflow and NaN
    are outside the model. Every statement about the evaluators is a statement about their
    control flow under exact arithmetic.
  \<^item> A raised exception is a value \<open>Inl e\<close> of a sum type.
  \<^item> A numpy array of shape \<open>rows \<times> cols\<close> is a list of rows; a colour (the last axis of
    the \<^verbatim>\<open>uint8\<close> pixel array) is a triple of bytes.
\<close>

datatype error = CannotSplit | ArrayTooSmall | IndexError | ValueError

type_synonym rgb = "8 word \<times> 8 word \<times> 8 word"

section \<open>QuadTree (quadtree.py)\<close>

text \<open>
  A node holds its top-left and bottom-right corner, each an \<open>(x, y)\<close> pair, that is
  (column, row). The \<^verbatim>\<open>children\<close> attribute only caches what \<^verbatim>\<open>split\<close> returns (it is read by
  the debugging overlay alone), so \<open>QuadTree_split\<close> returns the list.
\<close>

record QuadTree =
  top_left :: "int \<times> int"
  bottom_right :: "int \<times> int"

definition QuadTree_rows :: "QuadTree \<Rightarrow> int" where
  "QuadTree_rows q = snd (bottom_right q) - snd (top_left q)"

definition QuadTree_cols :: "QuadTree \<Rightarrow> int" where
  "QuadTree_cols q = fst (bottom_right q) - fst (top_left q)"

definition QuadTree_split :: "QuadTree \<Rightarrow> int \<Rightarrow> error + QuadTree list" where
  "QuadTree_split q boundary =
    (let tl = (fst (top_left q) + boundary, snd (top_left q) + boundary);
         br = (fst (bottom_right q) - boundary, snd (bottom_right q) - boundary);
         cols = fst br - fst tl;
         rows = snd br - snd tl
     in if rows < 1 \<or> cols < 1 then Inl CannotSplit
        else if rows = 1 \<and> cols = 1 then
          Inr [\<lparr>top_left = tl, bottom_right = br\<rparr>]
        else
          let smaller_box_size = (cols div 2, rows div 2) in
          if rows = 1 then
            Inr [\<lparr>top_left = tl, bottom_right = (fst tl + fst smaller_box_size, snd br)\<rparr>,
                 \<lparr>top_left = (fst tl + fst smaller_box_size, snd tl), bottom_right = br\<rparr>]
          else if cols = 1 then
            Inr [\<lparr>top_left = tl, bottom_right = (fst br, snd tl + snd smaller_box_size)\<rparr>,
                 \<lparr>top_left = (fst tl, snd tl + snd smaller_box_size), bottom_right = br\<rparr>]
          else
            Inr [\<lparr>top_left = tl,
                   bottom_right = (fst tl + fst smaller_box_size, snd tl + snd smaller_box_size)\<rparr>,
                 \<lparr>top_left = (fst tl + fst smaller_box_size, snd tl),
                   bottom_right = (fst br, snd tl + snd smaller_box_size)\<rparr>,
                 \<lparr>top_left = (fst tl, snd tl + snd smaller_box_size),
                   bottom_right = (fst tl + fst smaller_box_size, snd br)\<rparr>,
                 \<lparr>top_left = (fst tl + fst smaller_box_size, snd tl + snd smaller_box_size),
                   bottom_right = br\<rparr>])"

text \<open>
  Python's slice bounds on an axis of length \<open>n\<close> (step 1): a negative bound counts from
  the end, and every bound is clipped into \<open>0..n\<close>. A slice never raises.
\<close>

definition slice_bound :: "nat \<Rightarrow> int \<Rightarrow> nat" where
  "slice_bound n k = (if k < 0 then nat (max 0 (k + int n)) else min (nat k) n)"

text \<open>The assignment \<^verbatim>\<open>array[r0:r1, c0:c1] = v\<close>.\<close>

definition assign_slice :: "'a list list \<Rightarrow> int \<Rightarrow> int \<Rightarrow> int \<Rightarrow> int \<Rightarrow> 'a \<Rightarrow> 'a list list" where
  "assign_slice array r0 r1 c0 c1 v =
     map (\<lambda>(j, row).
            if slice_bound (length array) r0 \<le> j \<and> j < slice_bound (length array) r1
            then map (\<lambda>(i, c).
                        if slice_bound (length row) c0 \<le> i \<and> i < slice_bound (length row) c1
                        then v else c)
                     (enumerate 0 row)
            else row)
         (enumerate 0 array)"

text \<open>
  \<^verbatim>\<open>fill_array\<close>. The guard is \<^verbatim>\<open>len(array) < br[1] and len(array[0]) < br[0]\<close>: the right
  operand is evaluated only when the left one holds, and \<^verbatim>\<open>array[0]\<close> raises on an array
  without rows.
\<close>

definition QuadTree_fill_array :: "QuadTree \<Rightarrow> 'a list list \<Rightarrow> 'a \<Rightarrow> int \<Rightarrow> error + 'a list list" where
  "QuadTree_fill_array q array v boundary =
     (let filled = assign_slice array
                     (snd (top_left q) + boundary) (snd (bottom_right q) - boundary)
                     (fst (top_left q) + boundary) (fst (bottom_right q) - boundary) v
      in if int (length array) < snd (bottom_right q) then
           (case array of
              [] \<Rightarrow> Inl IndexError
            | row0 # _ \<Rightarrow>
                if int (length row0) < fst (bottom_right q) then Inl ArrayTooSmall
                else Inr filled)
         else Inr filled)"

text \<open>The pixel cells of a region, as (column, row) pairs, and the cells on its four edges.\<close>

definition cells :: "QuadTree \<Rightarrow> (int \<times> int) set" where
  "cells q = {fst (top_left q)..<fst (bottom_right q)} \<times> {snd (top_left q)..<snd (bottom_right q)}"

definition border_cells :: "QuadTree \<Rightarrow> (int \<times> int) set" where
  "border_cells q =
     {p \<in> cells q. fst p = fst (top_left q) \<or> fst p = fst (bottom_right q) - 1
                  \<or> snd p = snd (top_left q) \<or> snd p = snd (bottom_right q) - 1}"

section \<open>The point evaluators (Normal/util.py, Accelerated/calculation.py)\<close>

text \<open>\<^verbatim>\<open>in_main_body\<close> is the same function in both modules.\<close>

definition in_main_body :: "real \<Rightarrow> real \<Rightarrow> bool" where
  "in_main_body x y =
     (let q = (x - 0.25) * (x - 0.25) + y * y
      in q * (q + x - 0.25) \<le> 0.25 * y * y)"

text \<open>
  The local variables of the orbit loop. \<open>o_steps\<close> is instrumentation: it counts the
  executions of the loop body (the source has no such variable; \<open>o_iterations\<close> is the
  source's \<^verbatim>\<open>iterations\<close>, which periodicity detection overwrites).
\<close>

record orbit =
  o_x :: real
  o_y :: real
  o_x2 :: real
  o_y2 :: real
  o_w :: real
  o_x_old :: real
  o_y_old :: real
  o_period :: nat
  o_dx :: real
  o_dy :: real
  o_iterations :: nat
  o_steps :: nat

definition orbit_init :: orbit where
  "orbit_init = \<lparr>o_x = 0, o_y = 0, o_x2 = 0, o_y2 = 0, o_w = 0, o_x_old = 0, o_y_old = 0,
                  o_period = 0, o_dx = 0, o_dy = 0, o_iterations = 0, o_steps = 0\<rparr>"

text \<open>
  The assignments at the head of the loop body, textually the same in both evaluators:
  \<^verbatim>\<open>x = x2 - y2 + x0; y = w - x2 - y2 + y0; x2 = x*x; y2 = y*y; w = (x+y)*(x+y);\<close>
  \<^verbatim>\<open>dx2 = 2*(x*dx - y*dy) + 1; dy = 2*(y*dx + x*dy); dx = dx2; iterations += 1\<close>.
\<close>

definition orbit_step :: "real \<Rightarrow> real \<Rightarrow> orbit \<Rightarrow> orbit" where
  "orbit_step x0 y0 s =
     (let x = o_x2 s - o_y2 s + x0;
          y = o_w s - o_x2 s - o_y2 s + y0;
          dx2 = 2 * (x * o_dx s - y * o_dy s) + 1;
          dy = 2 * (y * o_dx s + x * o_dy s)
      in s\<lparr>o_x := x, o_y := y, o_x2 := x * x, o_y2 := y * y, o_w := (x + y) * (x + y),
            o_dy := dy, o_dx := dx2,
            o_iterations := o_iterations s + 1, o_steps := o_steps s + 1\<rparr>)"

text \<open>
  Normal/util.py: \<^verbatim>\<open>while x2 + y2 <= escape_radius_squared and iterations < max_iterations\<close>,
  with the periodicity check (a checkpoint every 21st step) at the end of the body.
\<close>

function normal_loop :: "real \<Rightarrow> real \<Rightarrow> nat \<Rightarrow> real \<Rightarrow> bool \<Rightarrow> orbit \<Rightarrow> orbit" where
  "normal_loop x0 y0 max_iterations escape_radius_squared period_checking s =
     (if o_x2 s + o_y2 s \<le> escape_radius_squared \<and> o_iterations s < max_iterations then
        let s1 = orbit_step x0 y0 s in
        if period_checking then
          if o_x_old s1 = o_x s1 \<and> o_y_old s1 = o_y s1 then s1\<lparr>o_iterations := max_iterations\<rparr>
          else if o_period s1 + 1 > 20 then
            normal_loop x0 y0 max_iterations escape_radius_squared period_checking
              (s1\<lparr>o_period := 0, o_x_old := o_x s1, o_y_old := o_y s1\<rparr>)
          else
            normal_loop x0 y0 max_iterations escape_radius_squared period_checking
              (s1\<lparr>o_period := o_period s1 + 1\<rparr>)
        else normal_loop x0 y0 max_iterations escape_radius_squared period_checking s1
      else s)"
  by pat_completeness auto
termination
  by (relation "measure (\<lambda>(x0, y0, max_iterations, ers, pc, s). max_iterations - o_iterations s)")
     (auto simp: orbit_step_def Let_def)

declare normal_loop.simps [simp del]

text \<open>
  Accelerated/calculation.py: \<^verbatim>\<open>for i in range(max_iterations)\<close> with a \<^verbatim>\<open>break\<close> on
  \<^verbatim>\<open>x2 + y2 >= escape_radius_squared\<close> after the step; the fifth argument counts the
  remaining passes. \<^verbatim>\<open>period > period_checking\<close> compares a counter with a boolean.
\<close>

fun accel_loop :: "real \<Rightarrow> real \<Rightarrow> nat \<Rightarrow> real \<Rightarrow> bool \<Rightarrow> nat \<Rightarrow> orbit \<Rightarrow> orbit" where
  "accel_loop x0 y0 max_iterations escape_radius_squared period_checking 0 s = s"
| "accel_loop x0 y0 max_iterations escape_radius_squared period_checking (Suc n) s =
     (let s1 = orbit_step x0 y0 s in
      if o_x2 s1 + o_y2 s1 \<ge> escape_radius_squared then s1
      else if period_checking then
        if o_x_old s1 = o_x s1 \<and> o_y_old s1 = o_y s1 then s1\<lparr>o_iterations := max_iterations\<rparr>
        else if o_period s1 + 1 > (if period_checking then 1 else 0) then
          accel_loop x0 y0 max_iterations escape_radius_squared period_checking n
            (s1\<lparr>o_period := 0, o_x_old := o_x s1, o_y_old := o_y s1\<rparr>)
        else
          accel_loop x0 y0 max_iterations escape_radius_squared period_checking n
            (s1\<lparr>o_period := o_period s1 + 1\<rparr>)
      else accel_loop x0 y0 max_iterations escape_radius_squared period_checking n s1)"

text \<open>
  What one call of \<^verbatim>\<open>calculate\<close> determines before it asks the colour mapper: membership, the
  iteration count, the final orbit value and its derivative, and the distance estimate
  (\<open>None\<close> where the source leaves it \<^verbatim>\<open>None\<close>, respectively at its initial \<^verbatim>\<open>0.0\<close>).
\<close>

record escape_result =
  in_set :: bool
  iterations :: nat
  final :: "real \<times> real"
  final_dz :: "real \<times> real"
  distance_estimate :: "real option"
  orbit_steps :: nat

definition evaluate_normal :: "real \<Rightarrow> real \<Rightarrow> nat \<Rightarrow> real \<Rightarrow> bool \<Rightarrow> escape_result" where
  "evaluate_normal x0 y0 max_iterations escape_radius period_checking =
     (if in_main_body x0 y0 then
        \<lparr>in_set = True, iterations = max_iterations, final = (x0, y0), final_dz = (0, 0),
         distance_estimate = None, orbit_steps = 0\<rparr>
      else
        let escape_radius_squared = escape_radius * escape_radius;
            s = normal_loop x0 y0 max_iterations escape_radius_squared period_checking orbit_init;
            z = o_x2 s + o_y2 s;
            dz = o_dx s * o_dx s + o_dy s * o_dy s
        in \<lparr>in_set = (o_iterations s = max_iterations), iterations = o_iterations s,
            final = (o_x s, o_y s), final_dz = (o_dx s, o_dy s),
            distance_estimate =
              (if o_iterations s \<noteq> max_iterations then Some (ln z * sqrt (z / dz)) else None),
            orbit_steps = o_steps s\<rparr>)"

definition evaluate_accel :: "real \<Rightarrow> real \<Rightarrow> nat \<Rightarrow> real \<Rightarrow> bool \<Rightarrow> escape_result" where
  "evaluate_accel x0 y0 max_iterations escape_radius period_checking =
     (if in_main_body x0 y0 then
        \<lparr>in_set = True, iterations = max_iterations, final = (x0, y0), final_dz = (0, 0),
         distance_estimate = None, orbit_steps = 0\<rparr>
      else
        let escape_radius_squared = escape_radius * escape_radius;
            s = accel_loop x0 y0 max_iterations escape_radius_squared period_checking
                  max_iterations orbit_init;
            z = o_x2 s + o_y2 s;
            dz = o_dx s * o_dx s + o_dy s * o_dy s
        in \<lparr>in_set = (o_iterations s = max_iterations), iterations = o_iterations s,
            final = (o_x s, o_y s), final_dz = (o_dx s, o_dy s),
            distance_estimate =
              (if o_iterations s \<noteq> max_iterations then Some (ln z * sqrt (z / dz)) else None),
            orbit_steps = o_steps s\<rparr>)"

text \<open>
  The colour mapper is a parameter. In Normal/util.py it is the callable \<^verbatim>\<open>color_scheme\<close>,
  called with \<^verbatim>\<open>max_iteration, iteration, distance_estimate, final, escape_radius, smooth\<close>.
  The memo dictionary is threaded through; \<^verbatim>\<open>num_computed\<close> is a local counter that is
  never returned and is left out.
\<close>

type_synonym color_scheme = "nat \<Rightarrow> nat \<Rightarrow> real option \<Rightarrow> real \<times> real \<Rightarrow> real \<Rightarrow> bool \<Rightarrow> rgb"

type_synonym memo = "real \<times> real \<rightharpoonup> rgb \<times> bool"

definition Normal_calculate ::
  "real \<Rightarrow> real \<Rightarrow> nat \<Rightarrow> real \<Rightarrow> bool \<Rightarrow> color_scheme \<Rightarrow> bool \<Rightarrow> memo option
     \<Rightarrow> (rgb \<times> bool) \<times> memo option" where
  "Normal_calculate x0 y0 max_iterations escape_radius smooth color_scheme period_checking memo =
     (case (case memo of None \<Rightarrow> None | Some m \<Rightarrow> m (x0, y0)) of
        Some cached \<Rightarrow> (cached, memo)
      | None \<Rightarrow>
          let r = evaluate_normal x0 y0 max_iterations escape_radius period_checking;
              color = color_scheme max_iterations (iterations r) (distance_estimate r) (final r)
                        escape_radius smooth;
              result = (color, in_set r)
          in (result, map_option (\<lambda>m. m((x0, y0) \<mapsto> result)) memo))"

text \<open>
  In Accelerated/calculation.py the colour comes from \<^verbatim>\<open>determine_colorscheme\<close>; the parameter
  stands for that function at the configured scheme id and colour map. The result is the
  \<^verbatim>\<open>uint8\<close> array \<^verbatim>\<open>[isMaxIteration, r, g, b]\<close>.
\<close>

type_synonym colorscheme = "nat \<Rightarrow> nat \<Rightarrow> real \<Rightarrow> real \<Rightarrow> real \<Rightarrow> real \<Rightarrow> bool \<Rightarrow> rgb"

definition Accelerated_calculate ::
  "real \<Rightarrow> real \<Rightarrow> nat \<Rightarrow> real \<Rightarrow> bool \<Rightarrow> colorscheme \<Rightarrow> bool \<Rightarrow> 8 word \<times> rgb" where
  "Accelerated_calculate x0 y0 max_iterations escape_radius smooth determine_colorscheme
       period_checking =
     (let r = evaluate_accel x0 y0 max_iterations escape_radius period_checking;
          color = determine_colorscheme max_iterations (iterations r)
                    (case distance_estimate r of None \<Rightarrow> 0 | Some d \<Rightarrow> d)
                    (fst (final r)) (snd (final r)) escape_radius smooth
      in (if in_set r then 1 else 0, color))"

text \<open>
  The orbit by itself: the state after \<open>k\<close> executions of the loop body, and the squared
  magnitude the escape test reads. \<open>stops_at_first esc\<close> says that a loop result lies on the
  orbit, that the escape test \<open>esc\<close> failed at every earlier step, and that a count below the
  cap is the number of steps taken, the test holding there.
\<close>

definition orbit_at :: "real \<Rightarrow> real \<Rightarrow> nat \<Rightarrow> orbit" where
  "orbit_at x0 y0 k = (orbit_step x0 y0 ^^ k) orbit_init"

definition mag2 :: "orbit \<Rightarrow> real" where
  "mag2 s = o_x2 s + o_y2 s"

definition same_orbit :: "orbit \<Rightarrow> orbit \<Rightarrow> bool" where
  "same_orbit s t \<longleftrightarrow>
     o_x s = o_x t \<and> o_y s = o_y t \<and> o_x2 s = o_x2 t \<and> o_y2 s = o_y2 t \<and> o_w s = o_w t \<and>
     o_dx s = o_dx t \<and> o_dy s = o_dy t \<and> o_steps s = o_steps t"

definition stops_at_first :: "(real \<Rightarrow> bool) \<Rightarrow> real \<Rightarrow> real \<Rightarrow> nat \<Rightarrow> orbit \<Rightarrow> bool" where
  "stops_at_first esc x0 y0 mi s \<longleftrightarrow>
     same_orbit s (orbit_at x0 y0 (o_steps s))
     \<and> (\<forall>j. 1 \<le> j \<and> j < o_steps s \<longrightarrow> \<not> esc (mag2 (orbit_at x0 y0 j)))
     \<and> o_iterations s \<le> mi
     \<and> (o_iterations s < mi \<longrightarrow> o_iterations s = o_steps s \<and> esc (mag2 s))"

section \<open>Array access and loops\<close>

text \<open>Sequencing of computations that may raise.\<close>

definition bind_err :: "error + 'a \<Rightarrow> ('a \<Rightarrow> error + 'b) \<Rightarrow> error + 'b" where
  "bind_err m f = (case m of Inl e \<Rightarrow> Inl e | Inr v \<Rightarrow> f v)"

text \<open>
  An integer index on an axis of length \<open>n\<close>: a negative index counts from the end, anything
  outside \<open>-n..n-1\<close> raises \<^verbatim>\<open>IndexError\<close>. (The numba-compiled functions of the accelerated
  path do not check bounds themselves; the model gives them the semantics of the Python
  text. Every region the renderers scan lies inside the arrays.)
\<close>

definition np_index :: "nat \<Rightarrow> int \<Rightarrow> error + nat" where
  "np_index n i =
     (if 0 \<le> i \<and> i < int n then Inr (nat i)
      else if - int n \<le> i \<and> i < 0 then Inr (nat (i + int n))
      else Inl IndexError)"

definition np_get :: "'a list \<Rightarrow> int \<Rightarrow> error + 'a" where
  "np_get xs i = bind_err (np_index (length xs) i) (\<lambda>k. Inr (xs ! k))"

text \<open>The assignment \<^verbatim>\<open>a[j][i] = v\<close> on an array of rows.\<close>

definition np_set2 :: "'a list list \<Rightarrow> int \<Rightarrow> int \<Rightarrow> 'a \<Rightarrow> error + 'a list list" where
  "np_set2 a j i v =
     bind_err (np_index (length a) j) (\<lambda>r.
     bind_err (np_index (length (a ! r)) i) (\<lambda>c.
     Inr (a[r := (a ! r)[c := v]])))"

text \<open>\<^verbatim>\<open>for i in range(a, b): body\<close> is \<open>for_range body [a..b - 1]\<close>.\<close>

fun for_range :: "(int \<Rightarrow> 's \<Rightarrow> error + 's) \<Rightarrow> int list \<Rightarrow> 's \<Rightarrow> error + 's" where
  "for_range body [] s = Inr s"
| "for_range body (i # rest) s = bind_err (body i s) (for_range body rest)"

section \<open>The plain border scan of the accelerated path (Accelerated/normal\_quadtree.py)\<close>

text \<open>
  The variables of \<^verbatim>\<open>calculate_quadtree\<close> that the two loops update, and the pixel array
  they write. \<open>sc_calls\<close> is instrumentation: the pixel coordinates (column, row) of the calls
  of \<^verbatim>\<open>calculate\<close>, in call order.
\<close>

record scan =
  sc_split :: bool
  sc_border_set :: bool
  sc_border :: rgb
  sc_pixels :: "rgb list list"
  sc_calls :: "(int \<times> int) list"

text \<open>\<^verbatim>\<open>calculate(x[i], y[j], ...)\<close>, logged.\<close>

definition scan_call ::
  "(real \<Rightarrow> real \<Rightarrow> 'r) \<Rightarrow> real list \<Rightarrow> real list \<Rightarrow> int \<Rightarrow> int \<Rightarrow> scan \<Rightarrow> error + ('r \<times> scan)" where
  "scan_call calc x y i j s =
     bind_err (np_get x i) (\<lambda>xv.
     bind_err (np_get y j) (\<lambda>yv.
     Inr (calc xv yv, s\<lparr>sc_calls := sc_calls s @ [(i, j)]\<rparr>)))"

text \<open>\<^verbatim>\<open>pixels[j][i] = c\<close>.\<close>

definition scan_write :: "int \<Rightarrow> int \<Rightarrow> rgb \<Rightarrow> scan \<Rightarrow> error + scan" where
  "scan_write j i c s =
     bind_err (np_set2 (sc_pixels s) j i c) (\<lambda>p. Inr (s\<lparr>sc_pixels := p\<rparr>))"

text \<open>
  \<^verbatim>\<open>if not split and cols >= 3 and rows >= 3: split |= not np.array_equal(border, c)\<close>.
\<close>

definition accel_compare :: "int \<Rightarrow> int \<Rightarrow> rgb \<Rightarrow> scan \<Rightarrow> scan" where
  "accel_compare cols rows c s =
     (if \<not> sc_split s \<and> cols \<ge> 3 \<and> rows \<ge> 3
      then s\<lparr>sc_split := (sc_split s \<or> \<not> (sc_border s = c))\<rparr>
      else s)"

text \<open>The body of the first loop: the pixel of column \<open>i\<close> in the top and in the bottom row.\<close>

definition accel_top_bottom ::
  "(real \<Rightarrow> real \<Rightarrow> 8 word \<times> rgb) \<Rightarrow> int \<times> int \<Rightarrow> int \<times> int \<Rightarrow> real list \<Rightarrow> real list
     \<Rightarrow> int \<Rightarrow> scan \<Rightarrow> error + scan" where
  "accel_top_bottom calc tl' br' x y i s =
     (let cols = fst br' - fst tl'; rows = snd br' - snd tl' in
      if sc_border_set s then
        bind_err (scan_call calc x y i (snd tl') s) (\<lambda>(top, s).
        let top_color = snd top;
            s = accel_compare cols rows top_color s in
        bind_err (scan_write (snd tl') i top_color s) (\<lambda>s.
        bind_err (scan_call calc x y i (snd br' - 1) s) (\<lambda>(bottom, s).
        let bottom_color = snd bottom;
            s = accel_compare cols rows bottom_color s in
        scan_write (snd br' - 1) i bottom_color s)))
      else
        bind_err (scan_call calc x y i (snd tl') s) (\<lambda>(top, s).
        let s = s\<lparr>sc_border := snd top\<rparr> in
        bind_err (scan_write (snd tl') i (sc_border s) s) (\<lambda>s.
        bind_err (scan_call calc x y i (snd br' - 1) s) (\<lambda>(bottom, s).
        let bottom_color = snd bottom;
            s = accel_compare cols rows bottom_color s in
        bind_err (scan_write (snd br' - 1) i bottom_color s) (\<lambda>s.
        Inr (s\<lparr>sc_border_set := True\<rparr>))))))"

text \<open>The body of the second loop: the pixel of row \<open>j\<close> in the left and in the right column.\<close>

definition accel_left_right ::
  "(real \<Rightarrow> real \<Rightarrow> 8 word \<times> rgb) \<Rightarrow> int \<times> int \<Rightarrow> int \<times> int \<Rightarrow> real list \<Rightarrow> real list
     \<Rightarrow> int \<Rightarrow> scan \<Rightarrow> error + scan" where
  "accel_left_right calc tl' br' x y j s =
     (let cols = fst br' - fst tl'; rows = snd br' - snd tl' in
      bind_err (scan_call calc x y (fst tl') j s) (\<lambda>(left, s).
      let left_color = snd left in
      bind_err (scan_write j (fst tl') left_color s) (\<lambda>s.
      let s = accel_compare cols rows left_color s in
      bind_err (scan_call calc x y (fst br' - 1) j s) (\<lambda>(right, s).
      let right_color = snd right in
      bind_err (scan_write j (fst br' - 1) right_color s) (\<lambda>s.
      Inr (accel_compare cols rows right_color s))))))"

text \<open>
  \<^verbatim>\<open>calculate_quadtree\<close>. It returns the \<^verbatim>\<open>uint8\<close> array \<^verbatim>\<open>[split, r, g, b]\<close>; the model
  returns with it the pixel array it has written, and the call log. A \<open>1 \<times> 1\<close> region is
  evaluated and returned without a write.
\<close>

definition Accelerated_calculate_quadtree ::
  "int \<times> int \<Rightarrow> int \<times> int \<Rightarrow> rgb list list \<Rightarrow> real list \<Rightarrow> real list
     \<Rightarrow> nat \<Rightarrow> real \<Rightarrow> bool \<Rightarrow> colorscheme \<Rightarrow> bool
     \<Rightarrow> error + (8 word list \<times> rgb list list \<times> (int \<times> int) list)" where
  "Accelerated_calculate_quadtree tl' br' pixels x y max_iterations escape_radius smooth
       color_scheme period_checking =
     (let cols = fst br' - fst tl';
          rows = snd br' - snd tl';
          calc = (\<lambda>xv yv. Accelerated_calculate xv yv max_iterations escape_radius smooth
                             color_scheme period_checking);
          s0 = \<lparr>sc_split = False, sc_border_set = False, sc_border = (- 1, - 1, - 1),
                sc_pixels = pixels, sc_calls = []\<rparr>
      in if rows = 1 \<and> cols = 1 then
           bind_err (scan_call calc x y (fst tl') (snd tl') s0) (\<lambda>(r, s).
           case snd r of (c0, c1, c2) \<Rightarrow> Inr ([0, c0, c1, c2], sc_pixels s, sc_calls s))
         else
           bind_err (for_range (accel_top_bottom calc tl' br' x y) [fst tl'..fst br' - 1] s0) (\<lambda>s.
           bind_err (for_range (accel_left_right calc tl' br' x y) [snd tl'..snd br' - 1] s) (\<lambda>s.
           case sc_border s of (b0, b1, b2) \<Rightarrow>
             Inr ([if sc_split s then 1 else 0, b0, b1, b2], sc_pixels s, sc_calls s))))"

text \<open>
  Vocabulary for the scan: a region lies inside the arrays; the call order of one scan;
  writing the colours of a list of calls, each at its own coordinate.
\<close>

definition in_buffer :: "int \<times> int \<Rightarrow> int \<times> int \<Rightarrow> 'a list list \<Rightarrow> real list \<Rightarrow> real list \<Rightarrow> bool" where
  "in_buffer tl' br' pixels x y \<longleftrightarrow>
     0 \<le> fst tl' \<and> fst br' \<le> int (length x) \<and> 0 \<le> snd tl' \<and> snd br' \<le> int (length y) \<and>
     length pixels = length y \<and> list_all (\<lambda>row. length row = length x) pixels"

definition border_calls :: "int \<times> int \<Rightarrow> int \<times> int \<Rightarrow> (int \<times> int) list" where
  "border_calls tl' br' =
     concat (map (\<lambda>i. [(i, snd tl'), (i, snd br' - 1)]) [fst tl'..fst br' - 1]) @
     concat (map (\<lambda>j. [(fst tl', j), (fst br' - 1, j)]) [snd tl'..snd br' - 1])"

definition px_set :: "'a list list \<Rightarrow> int \<Rightarrow> int \<Rightarrow> 'a \<Rightarrow> 'a list list" where
  "px_set a j i v = a[nat j := (a ! nat j)[nat i := v]]"

definition write_calls :: "(int \<times> int \<Rightarrow> 'a) \<Rightarrow> (int \<times> int) list \<Rightarrow> 'a list list \<Rightarrow> 'a list list" where
  "write_calls f calls a = foldl (\<lambda>a p. px_set a (snd p) (fst p) (f p)) a calls"

text \<open>The colour the accelerated evaluator computes for the pixel in column \<open>i\<close>, row \<open>j\<close>.\<close>

definition accel_color ::
  "real list \<Rightarrow> real list \<Rightarrow> nat \<Rightarrow> real \<Rightarrow> bool \<Rightarrow> colorscheme \<Rightarrow> bool \<Rightarrow> int \<times> int \<Rightarrow> rgb" where
  "accel_color x y max_iterations escape_radius smooth color_scheme period_checking p =
     snd (Accelerated_calculate (x ! nat (fst p)) (y ! nat (snd p)) max_iterations escape_radius
            smooth color_scheme period_checking)"

definition fits :: "real list \<Rightarrow> real list \<Rightarrow> 'a list list \<Rightarrow> bool" where
  "fits x y a \<longleftrightarrow> length a = length y \<and> list_all (\<lambda>row. length row = length x) a"

text \<open>
  The loop invariant of the plain scan after the calls \<open>calls\<close>: the log, the pixels written
  so far, and the split flag as the disagreement of a logged colour with the border colour.
\<close>

definition scan_inv ::
  "(int \<times> int \<Rightarrow> rgb) \<Rightarrow> int \<Rightarrow> int \<Rightarrow> real list \<Rightarrow> real list \<Rightarrow> rgb list list
     \<Rightarrow> (int \<times> int) list \<Rightarrow> scan \<Rightarrow> bool" where
  "scan_inv f cols rows x y pixels calls s \<longleftrightarrow>
     sc_calls s = calls \<and> sc_pixels s = write_calls f calls pixels \<and> fits x y (sc_pixels s) \<and>
     sc_split s = (cols \<ge> 3 \<and> rows \<ge> 3 \<and> (\<exists>p \<in> set calls. f p \<noteq> sc_border s))"

text \<open>
  One visit of the scan: the call for pixel \<open>p\<close> is logged, its colour is compared with the
  border colour and written at \<open>p\<close>.
\<close>

definition visit :: "(int \<times> int \<Rightarrow> rgb) \<Rightarrow> int \<Rightarrow> int \<Rightarrow> int \<times> int \<Rightarrow> scan \<Rightarrow> scan" where
  "visit f cols rows p s =
     (accel_compare cols rows (f p) (s\<lparr>sc_calls := sc_calls s @ [p]\<rparr>))
       \<lparr>sc_pixels := px_set (sc_pixels s) (snd p) (fst p) (f p)\<rparr>"

section \<open>The plain border scan of the non-accelerated path (Normal/util.py)\<close>

text \<open>
  The variables of \<^verbatim>\<open>calculate_quadtree\<close>: \<^verbatim>\<open>border\<close> starts as \<^verbatim>\<open>None\<close>; the memo dictionary
  is shared by all calls. \<open>ns_calls\<close> is the instrumentation log of the calls of
  \<^verbatim>\<open>calculate\<close> (memo hits included).
\<close>

record nscan =
  ns_split :: bool
  ns_border :: "rgb option"
  ns_pixels :: "rgb list list"
  ns_memo :: "memo option"
  ns_calls :: "(int \<times> int) list"

text \<open>\<^verbatim>\<open>color, _ = calculate(x[i], y[j], ..., memo)\<close>.\<close>

definition nscan_call ::
  "real list \<Rightarrow> real list \<Rightarrow> nat \<Rightarrow> real \<Rightarrow> bool \<Rightarrow> color_scheme \<Rightarrow> bool
     \<Rightarrow> int \<Rightarrow> int \<Rightarrow> nscan \<Rightarrow> error + (rgb \<times> nscan)" where
  "nscan_call x y max_iterations escape_radius smooth color_scheme period_checking i j s =
     bind_err (np_get x i) (\<lambda>xv.
     bind_err (np_get y j) (\<lambda>yv.
     case Normal_calculate xv yv max_iterations escape_radius smooth color_scheme
            period_checking (ns_memo s) of
       (r, m) \<Rightarrow> Inr (fst r, s\<lparr>ns_memo := m, ns_calls := ns_calls s @ [(i, j)]\<rparr>)))"

definition nscan_write :: "int \<Rightarrow> int \<Rightarrow> rgb \<Rightarrow> nscan \<Rightarrow> error + nscan" where
  "nscan_write j i c s =
     bind_err (np_set2 (ns_pixels s) j i c) (\<lambda>p. Inr (s\<lparr>ns_pixels := p\<rparr>))"

text \<open>\<^verbatim>\<open>(border != c).any()\<close>; a colour differs from \<^verbatim>\<open>None\<close>.\<close>

definition differs :: "rgb option \<Rightarrow> rgb \<Rightarrow> bool" where
  "differs border c = (case border of None \<Rightarrow> True | Some b \<Rightarrow> b \<noteq> c)"

text \<open>\<^verbatim>\<open>if not split: split |= (border != c).any()\<close>.\<close>

definition normal_compare :: "rgb \<Rightarrow> nscan \<Rightarrow> nscan" where
  "normal_compare c s =
     (if \<not> ns_split s then s\<lparr>ns_split := (ns_split s \<or> differs (ns_border s) c)\<rparr> else s)"

definition normal_top_bottom ::
  "QuadTree \<Rightarrow> real list \<Rightarrow> real list \<Rightarrow> nat \<Rightarrow> real \<Rightarrow> bool \<Rightarrow> color_scheme \<Rightarrow> bool
     \<Rightarrow> int \<Rightarrow> nscan \<Rightarrow> error + nscan" where
  "normal_top_bottom quad_tree x y max_iterations escape_radius smooth color_scheme
       period_checking i s =
     (let tl = top_left quad_tree; br = bottom_right quad_tree;
          call = nscan_call x y max_iterations escape_radius smooth color_scheme period_checking
      in if ns_border s \<noteq> None then
           bind_err (call i (snd tl) s) (\<lambda>(top_color, s).
           let s = normal_compare top_color s in
           bind_err (nscan_write (snd tl) i top_color s) (\<lambda>s.
           bind_err (call i (snd br - 1) s) (\<lambda>(bottom_color, s).
           let s = normal_compare bottom_color s in
           nscan_write (snd br - 1) i bottom_color s)))
         else
           bind_err (call i (snd tl) s) (\<lambda>(top_color, s).
           bind_err (nscan_write (snd tl) i top_color s) (\<lambda>s.
           let s = s\<lparr>ns_border := Some top_color\<rparr> in
           bind_err (call i (snd br - 1) s) (\<lambda>(bottom_color, s).
           let s = s\<lparr>ns_split := (ns_split s \<or> differs (ns_border s) bottom_color)\<rparr> in
           nscan_write (snd br - 1) i bottom_color s))))"

definition normal_left_right ::
  "QuadTree \<Rightarrow> real list \<Rightarrow> real list \<Rightarrow> nat \<Rightarrow> real \<Rightarrow> bool \<Rightarrow> color_scheme \<Rightarrow> bool
     \<Rightarrow> int \<Rightarrow> nscan \<Rightarrow> error + nscan" where
  "normal_left_right quad_tree x y max_iterations escape_radius smooth color_scheme
       period_checking j s =
     (let tl = top_left quad_tree; br = bottom_right quad_tree;
          call = nscan_call x y max_iterations escape_radius smooth color_scheme period_checking
      in bind_err (call (fst tl) j s) (\<lambda>(left_color, s).
         bind_err (nscan_write j (fst tl) left_color s) (\<lambda>s.
         let s = normal_compare left_color s in
         bind_err (call (fst br - 1) j s) (\<lambda>(right_color, s).
         bind_err (nscan_write j (fst br - 1) right_color s) (\<lambda>s.
         Inr (normal_compare right_color s))))))"

text \<open>
  \<^verbatim>\<open>calculate_quadtree\<close> returns \<^verbatim>\<open>(split and cols > 3 and rows > 3, border)\<close>; the model adds
  the pixel array, the memo dictionary and the call log.
\<close>

definition Normal_calculate_quadtree ::
  "QuadTree \<Rightarrow> rgb list list \<Rightarrow> real list \<Rightarrow> real list \<Rightarrow> nat \<Rightarrow> real \<Rightarrow> bool
     \<Rightarrow> color_scheme \<Rightarrow> bool \<Rightarrow> memo option
     \<Rightarrow> error + ((bool \<times> rgb option) \<times> rgb list list \<times> memo option \<times> (int \<times> int) list)" where
  "Normal_calculate_quadtree quad_tree pixels x y max_iterations escape_radius smooth
       color_scheme period_checking memo =
     (let tl = top_left quad_tree; br = bottom_right quad_tree;
          s0 = \<lparr>ns_split = False, ns_border = None, ns_pixels = pixels, ns_memo = memo,
                ns_calls = []\<rparr>
      in if QuadTree_rows quad_tree = 1 \<and> QuadTree_cols quad_tree = 1 then
           bind_err (nscan_call x y max_iterations escape_radius smooth color_scheme
                       period_checking (fst tl) (snd tl) s0) (\<lambda>(color, s).
           Inr ((False, Some color), ns_pixels s, ns_memo s, ns_calls s))
         else
           bind_err (for_range (normal_top_bottom quad_tree x y max_iterations escape_radius
                                  smooth color_scheme period_checking)
                       [fst tl..fst br - 1] s0) (\<lambda>s.
           bind_err (for_range (normal_left_right quad_tree x y max_iterations escape_radius
                                  smooth color_scheme period_checking)
                       [snd tl..snd br - 1] s) (\<lambda>s.
           Inr ((ns_split s \<and> QuadTree_cols quad_tree > 3 \<and> QuadTree_rows quad_tree > 3,
                 ns_border s),
                ns_pixels s, ns_memo s, ns_calls s))))"

section \<open>The grayscale colour scheme (Normal/coloring.py, Accelerated/coloring.py)\<close>

text \<open>
  The colour mapper is a parameter of everything above. Concrete evaluations use the
  repository's grayscale scheme (scheme 0, the default).
  \<^verbatim>\<open>continous_dwell\<close> is \<^verbatim>\<open>dwell - log2(log2(x*x + y*y)) + log2(log2(escape_radius)) + 1\<close>.
\<close>

definition continous_dwell :: "real \<Rightarrow> real \<Rightarrow> real \<Rightarrow> real \<Rightarrow> real" where
  "continous_dwell x y dwell escape_radius =
     dwell - log 2 (log 2 (x * x + y * y)) + log 2 (log 2 escape_radius) + 1"

text \<open>\<^verbatim>\<open>np.round\<close>: to the nearest integer, halves to the even neighbour.\<close>

definition np_round :: "real \<Rightarrow> int" where
  "np_round v = (if frac v = 1 / 2 then (if even \<lfloor>v\<rfloor> then \<lfloor>v\<rfloor> else \<lfloor>v\<rfloor> + 1) else round v)"

text \<open>
  Normal: \<^verbatim>\<open>s = sqrt(iteration / max_iteration)\<close>, each channel \<^verbatim>\<open>np.round(s * 255)\<close>, stored
  into the \<^verbatim>\<open>uint8\<close> pixel array.
\<close>

definition Normal_grayscale :: color_scheme where
  "Normal_grayscale max_iteration iteration d_est final_z escape_radius smooth =
     (let it = (if iteration \<noteq> max_iteration \<and> smooth
                then continous_dwell (fst final_z) (snd final_z) (real iteration) escape_radius
                else real iteration);
          s = sqrt (it / real max_iteration);
          c = word_of_int (np_round (s * 255))
      in (c, c, c))"

text \<open>
  Accelerated: the same \<open>s\<close>, each channel \<^verbatim>\<open>s * 255\<close> converted to \<^verbatim>\<open>uint8\<close> (truncation).
  \<^verbatim>\<open>determine_colorscheme\<close> selects it for scheme 0 and ignores the distance estimate.
\<close>

definition Accelerated_grayscale :: colorscheme where
  "Accelerated_grayscale max_iteration iteration d_est x y escape_radius smooth =
     (let it = (if iteration \<noteq> max_iteration \<and> smooth
                then continous_dwell x y (real iteration) escape_radius
                else real iteration);
          s = sqrt (it / real max_iteration);
          c = word_of_int \<lfloor>s * 255\<rfloor>
      in (c, c, c))"

section \<open>The accelerated renderer (Accelerated/raster.py, mixed\_quadtree.py, accelerated\_mandelbrot.py)\<close>

text \<open>
  \<^verbatim>\<open>seen.shape[1]\<close> of an array of rows, and the read \<^verbatim>\<open>a[i, j]\<close>. (An array without rows has
  lost its second dimension in the model; the renderers never build one, since
  \<^verbatim>\<open>split(boundary=0)\<close> raises on an image without rows.)
\<close>

definition shape1 :: "'a list list \<Rightarrow> nat" where
  "shape1 a = (case a of [] \<Rightarrow> 0 | row # _ \<Rightarrow> length row)"

definition np_get2 :: "'a list list \<Rightarrow> int \<Rightarrow> int \<Rightarrow> error + 'a" where
  "np_get2 a i j = bind_err (np_get a i) (\<lambda>row. np_get row j)"

text \<open>
  \<^verbatim>\<open>compute_raster\<close>: the body of the two loops,
  \<^verbatim>\<open>if seen.shape[1] != 0 and not seen[i, j]: pixels[i, j] = calculate(x[j], y[i], ...)[1:]\<close>,
  and the loops, rows outside. The \<^verbatim>\<open>prange\<close> loop is run in index order.
\<close>

definition raster_pixel ::
  "(real \<Rightarrow> real \<Rightarrow> 8 word \<times> rgb) \<Rightarrow> bool list list \<Rightarrow> real list \<Rightarrow> real list \<Rightarrow> int \<Rightarrow> int
     \<Rightarrow> rgb list list \<Rightarrow> error + rgb list list" where
  "raster_pixel calc seen x y i j pixels =
     (if shape1 seen \<noteq> 0 then
        bind_err (np_get2 seen i j) (\<lambda>sn.
        if \<not> sn then
          bind_err (np_get x j) (\<lambda>xv.
          bind_err (np_get y i) (\<lambda>yv.
          np_set2 pixels i j (snd (calc xv yv))))
        else Inr pixels)
      else Inr pixels)"

definition compute_raster ::
  "rgb list list \<Rightarrow> bool list list \<Rightarrow> real list \<Rightarrow> real list \<Rightarrow> nat \<Rightarrow> real \<Rightarrow> bool
     \<Rightarrow> colorscheme \<Rightarrow> bool \<Rightarrow> error + rgb list list" where
  "compute_raster pixels seen x y max_iterations escape_radius smooth color_scheme
       period_checking =
     (let calc = (\<lambda>xv yv. Accelerated_calculate xv yv max_iterations escape_radius smooth
                             color_scheme period_checking)
      in for_range (\<lambda>i. for_range (\<lambda>j. raster_pixel calc seen x y i j)
                                    [0..int (length x) - 1])
           [0..int (length y) - 1] pixels)"

text \<open>
  The variables of \<^verbatim>\<open>calculate_mixed\<close> that its two loops update, with the two arrays they
  write.
\<close>

record mscan =
  ms_isMandelbrot :: bool
  ms_hasMandelbrot :: bool
  ms_border :: rgb
  ms_pixels :: "rgb list list"
  ms_seen :: "bool list list"

text \<open>
  First loop:
  \<^verbatim>\<open>inSet = r[0] == 1; if not hasMandelbrot and inSet: border = r[1:]\<close>, then
  \<^verbatim>\<open>isMandelbrot &= inSet; hasMandelbrot |= inSet\<close>.
\<close>

definition mixed_note :: "8 word \<times> rgb \<Rightarrow> mscan \<Rightarrow> mscan" where
  "mixed_note r s =
     (let inSet = (fst r = 1);
          s = (if \<not> ms_hasMandelbrot s \<and> inSet then s\<lparr>ms_border := snd r\<rparr> else s)
      in s\<lparr>ms_isMandelbrot := (ms_isMandelbrot s \<and> inSet),
           ms_hasMandelbrot := (ms_hasMandelbrot s \<or> inSet)\<rparr>)"

text \<open>Second loop: the two flags are updated before the test that sets \<^verbatim>\<open>border\<close>.\<close>

definition mixed_note_late :: "8 word \<times> rgb \<Rightarrow> mscan \<Rightarrow> mscan" where
  "mixed_note_late r s =
     (let inSet = (fst r = 1);
          s = s\<lparr>ms_isMandelbrot := (ms_isMandelbrot s \<and> inSet),
                ms_hasMandelbrot := (ms_hasMandelbrot s \<or> inSet)\<rparr>
      in if \<not> ms_hasMandelbrot s \<and> inSet then s\<lparr>ms_border := snd r\<rparr> else s)"

definition mscan_write :: "int \<Rightarrow> int \<Rightarrow> rgb \<Rightarrow> mscan \<Rightarrow> error + mscan" where
  "mscan_write j i c s =
     bind_err (np_set2 (ms_pixels s) j i c) (\<lambda>p. Inr (s\<lparr>ms_pixels := p\<rparr>))"

text \<open>\<^verbatim>\<open>seen[j][i] = True\<close>.\<close>

definition mscan_see :: "int \<Rightarrow> int \<Rightarrow> mscan \<Rightarrow> error + mscan" where
  "mscan_see j i s =
     bind_err (np_set2 (ms_seen s) j i True) (\<lambda>p. Inr (s\<lparr>ms_seen := p\<rparr>))"

definition mixed_top_bottom ::
  "(real \<Rightarrow> real \<Rightarrow> 8 word \<times> rgb) \<Rightarrow> int \<times> int \<Rightarrow> int \<times> int \<Rightarrow> real list \<Rightarrow> real list
     \<Rightarrow> int \<Rightarrow> mscan \<Rightarrow> error + mscan" where
  "mixed_top_bottom calc tl' br' x y i s =
     bind_err (np_get x i) (\<lambda>xv.
     bind_err (np_get y (snd tl')) (\<lambda>yv.
     let top = calc xv yv;
         s = mixed_note top s in
     bind_err (mscan_write (snd tl') i (snd top) s) (\<lambda>s.
     bind_err (np_get x i) (\<lambda>xv.
     bind_err (np_get y (snd br' - 1)) (\<lambda>yv.
     let bottom = calc xv yv;
         s = mixed_note bottom s in
     bind_err (mscan_write (snd br' - 1) i (snd bottom) s) (\<lambda>s.
     bind_err (mscan_see (snd tl') i s) (\<lambda>s.
     mscan_see (snd br' - 1) i s)))))))"

definition mixed_left_right ::
  "(real \<Rightarrow> real \<Rightarrow> 8 word \<times> rgb) \<Rightarrow> int \<times> int \<Rightarrow> int \<times> int \<Rightarrow> real list \<Rightarrow> real list
     \<Rightarrow> int \<Rightarrow> mscan \<Rightarrow> error + mscan" where
  "mixed_left_right calc tl' br' x y j s =
     bind_err (np_get x (fst tl')) (\<lambda>xv.
     bind_err (np_get y j) (\<lambda>yv.
     let left = calc xv yv;
         s = mixed_note_late left s in
     bind_err (mscan_write j (fst tl') (snd left) s) (\<lambda>s.
     bind_err (np_get x (fst br' - 1)) (\<lambda>xv.
     bind_err (np_get y j) (\<lambda>yv.
     let right = calc xv yv;
         s = mixed_note_late right s in
     bind_err (mscan_write j (fst br' - 1) (snd right) s) (\<lambda>s.
     bind_err (mscan_see j (fst tl') s) (\<lambda>s.
     mscan_see j (fst br' - 1) s)))))))"

text \<open>
  \<^verbatim>\<open>calculate_mixed\<close>. For a \<open>1 \<times> 1\<close> region it returns the four entries \<^verbatim>\<open>[0, r, g, b]\<close>, having
  marked the pixel seen without writing it; otherwise the five entries
  \<^verbatim>\<open>[split, isMandelbrot, r, g, b]\<close>. The model returns the two arrays with it.
\<close>

definition Accelerated_calculate_mixed ::
  "int \<times> int \<Rightarrow> int \<times> int \<Rightarrow> rgb list list \<Rightarrow> bool list list \<Rightarrow> real list \<Rightarrow> real list
     \<Rightarrow> nat \<Rightarrow> real \<Rightarrow> bool \<Rightarrow> colorscheme \<Rightarrow> bool
     \<Rightarrow> error + (8 word list \<times> rgb list list \<times> bool list list)" where
  "Accelerated_calculate_mixed tl' br' pixels seen x y max_iterations escape_radius smooth
       color_scheme period_checking =
     (let cols = fst br' - fst tl';
          rows = snd br' - snd tl';
          calc = (\<lambda>xv yv. Accelerated_calculate xv yv max_iterations escape_radius smooth
                             color_scheme period_checking);
          s0 = \<lparr>ms_isMandelbrot = True, ms_hasMandelbrot = False, ms_border = (0, 0, 0),
                ms_pixels = pixels, ms_seen = seen\<rparr>
      in if rows = 1 \<and> cols = 1 then
           bind_err (np_get x (fst tl')) (\<lambda>xv.
           bind_err (np_get y (snd tl')) (\<lambda>yv.
           bind_err (np_set2 seen (snd tl') (fst tl') True) (\<lambda>seen.
           case snd (calc xv yv) of (c0, c1, c2) \<Rightarrow> Inr ([0, c0, c1, c2], pixels, seen))))
         else
           bind_err (for_range (mixed_top_bottom calc tl' br' x y) [fst tl'..fst br' - 1] s0) (\<lambda>s.
           bind_err (for_range (mixed_left_right calc tl' br' x y) [snd tl'..snd br' - 1] s) (\<lambda>s.
           case ms_border s of (b0, b1, b2) \<Rightarrow>
             Inr ([if ms_isMandelbrot s \<noteq> ms_hasMandelbrot s \<and> cols \<ge> 3 \<and> rows \<ge> 3 then 1 else 0,
                   if \<not> ms_isMandelbrot s then 0 else 1, b0, b1, b2],
                  ms_pixels s, ms_seen s))))"

text \<open>
  The renderer object. The sample grids \<open>m_x\<close> and \<open>m_y\<close> stand for what \<^verbatim>\<open>__init__\<close> computes
  from \<^verbatim>\<open>size\<close>, \<^verbatim>\<open>center\<close> and \<^verbatim>\<open>width\<close>: \<^verbatim>\<open>size[0]\<close> abscissae and \<^verbatim>\<open>size[1]\<close> ordinates. The
  pixel buffer starts as zeros, \<^verbatim>\<open>period_checking\<close> is always on, and \<^verbatim>\<open>fast_quadtree\<close> is
  forced off in raster mode.
\<close>

record AcceleratedMandelbrot =
  m_size :: "int \<times> int"
  m_max_iterations :: nat
  m_smooth :: bool
  m_raster :: bool
  m_mixed_raster :: bool
  m_period_checking :: bool
  m_fast_quadtree :: bool
  m_quad_tree :: QuadTree
  m_x :: "real list"
  m_y :: "real list"
  m_pixels :: "rgb list list"
  m_color_scheme :: colorscheme
  m_escape_radius :: real

definition AcceleratedMandelbrot_init ::
  "real list \<Rightarrow> real list \<Rightarrow> nat \<Rightarrow> real \<Rightarrow> colorscheme \<Rightarrow> bool \<Rightarrow> bool \<Rightarrow> bool \<Rightarrow> bool
     \<Rightarrow> AcceleratedMandelbrot" where
  "AcceleratedMandelbrot_init x y max_iterations escape_radius color_scheme smooth raster
       mixed_raster fast_quadtree =
     \<lparr>m_size = (int (length x), int (length y)),
      m_max_iterations = max_iterations,
      m_smooth = smooth,
      m_raster = raster,
      m_mixed_raster = mixed_raster,
      m_period_checking = True,
      m_fast_quadtree = (if \<not> raster then fast_quadtree else False),
      m_quad_tree = \<lparr>top_left = (0, 0), bottom_right = (int (length x), int (length y))\<rparr>,
      m_x = x,
      m_y = y,
      m_pixels = replicate (length y) (replicate (length x) (0, 0, 0)),
      m_color_scheme = color_scheme,
      m_escape_radius = escape_radius\<rparr>"

text \<open>The calls of the scanners and of the raster pass with the object's attributes.\<close>

definition m_calculate_quadtree ::
  "AcceleratedMandelbrot \<Rightarrow> QuadTree \<Rightarrow> rgb list list
     \<Rightarrow> error + (8 word list \<times> rgb list list \<times> (int \<times> int) list)" where
  "m_calculate_quadtree m quad_tree pixels =
     Accelerated_calculate_quadtree (top_left quad_tree) (bottom_right quad_tree) pixels
       (m_x m) (m_y m) (m_max_iterations m) (m_escape_radius m) (m_smooth m) (m_color_scheme m)
       (m_period_checking m)"

definition m_calculate_mixed ::
  "AcceleratedMandelbrot \<Rightarrow> QuadTree \<Rightarrow> rgb list list \<Rightarrow> bool list list
     \<Rightarrow> error + (8 word list \<times> rgb list list \<times> bool list list)" where
  "m_calculate_mixed m quad_tree pixels seen =
     Accelerated_calculate_mixed (top_left quad_tree) (bottom_right quad_tree) pixels seen
       (m_x m) (m_y m) (m_max_iterations m) (m_escape_radius m) (m_smooth m) (m_color_scheme m)
       (m_period_checking m)"

definition m_compute_raster ::
  "AcceleratedMandelbrot \<Rightarrow> rgb list list \<Rightarrow> bool list list \<Rightarrow> error + rgb list list" where
  "m_compute_raster m pixels seen =
     compute_raster pixels seen (m_x m) (m_y m) (m_max_iterations m) (m_escape_radius m)
       (m_smooth m) (m_color_scheme m) (m_period_checking m)"

text \<open>
  \<^verbatim>\<open>quad_tree.fill_array(self.pixels, border)\<close> with \<^verbatim>\<open>border\<close> a slice of a result array: the
  three entries are broadcast over the slice of the pixel array; any other number of entries
  cannot be broadcast to pixels of three channels, and the assignment raises.
\<close>

definition fill_color :: "QuadTree \<Rightarrow> rgb list list \<Rightarrow> 8 word list \<Rightarrow> error + rgb list list" where
  "fill_color quad_tree pixels border =
     (case border of
        [r, g, b] \<Rightarrow> QuadTree_fill_array quad_tree pixels (r, g, b) 1
      | _ \<Rightarrow> bind_err (QuadTree_fill_array quad_tree pixels (0, 0, 0) 1) (\<lambda>_. Inl ValueError))"

text \<open>
  The queue loops end because a split replaces a region by at most four regions that are
  at least two columns narrower: \<open>region_weight\<close> summed over the queue decreases.
\<close>

definition region_weight :: "QuadTree \<Rightarrow> nat" where
  "region_weight q = 4 ^ nat (QuadTree_cols q)"

definition queue_weight :: "QuadTree list \<Rightarrow> nat" where
  "queue_weight queue = sum_list (map region_weight queue)"

lemma bind_err_cong [fundef_cong]:
  "m = m' \<Longrightarrow> (\<And>v. m' = Inr v \<Longrightarrow> f v = f' v) \<Longrightarrow> bind_err m f = bind_err m' f'"
  by (cases m') (simp_all add: bind_err_def)

lemma region_weight_pos: "0 < region_weight q"
  by (simp add: region_weight_def)

lemma region_weight_mono:
  "QuadTree_cols c \<le> QuadTree_cols q - 2 \<Longrightarrow> 3 \<le> QuadTree_cols q
     \<Longrightarrow> 16 * region_weight c \<le> region_weight q"
proof -
  assume a: "QuadTree_cols c \<le> QuadTree_cols q - 2" "3 \<le> QuadTree_cols q"
  then have "nat (QuadTree_cols c) + 2 \<le> nat (QuadTree_cols q)"
    by linarith
  then have "(4::nat) ^ (nat (QuadTree_cols c) + 2) \<le> 4 ^ nat (QuadTree_cols q)"
    by (intro power_increasing) simp_all
  then show ?thesis
    by (simp add: region_weight_def)
qed

lemma split_children:
  assumes "QuadTree_split q 1 = Inr children"
  shows "3 \<le> QuadTree_cols q \<and> length children \<le> 4
       \<and> (\<forall>c \<in> set children. QuadTree_cols c \<le> QuadTree_cols q - 2)"
  using assms
  by (auto simp add: QuadTree_split_def QuadTree_cols_def Let_def split: if_splits)

lemma queue_weight_bound:
  "\<forall>c \<in> set children. 16 * region_weight c \<le> w \<Longrightarrow> 16 * queue_weight children \<le> length children * w"
  by (induction children) (simp_all add: queue_weight_def)

lemma split_weight:
  assumes "QuadTree_split q 1 = Inr children"
  shows "queue_weight children < region_weight q"
proof -
  from split_children [OF assms] have c: "3 \<le> QuadTree_cols q" "length children \<le> 4"
    "\<forall>c \<in> set children. QuadTree_cols c \<le> QuadTree_cols q - 2"
    by simp_all
  from c(1,3) have "\<forall>c \<in> set children. 16 * region_weight c \<le> region_weight q"
    using region_weight_mono by blast
  then have "16 * queue_weight children \<le> length children * region_weight q"
    by (rule queue_weight_bound)
  also have "\<dots> \<le> 4 * region_weight q"
    using c(2) by simp
  finally have "16 * queue_weight children \<le> 4 * region_weight q" .
  moreover have "0 < region_weight q"
    by (rule region_weight_pos)
  ultimately show ?thesis
    by linarith
qed

lemma queue_weight_simps [simp]:
  "queue_weight [] = 0"
  "queue_weight (q # queue) = region_weight q + queue_weight queue"
  "queue_weight (queue @ queue') = queue_weight queue + queue_weight queue'"
  by (simp_all add: queue_weight_def)

text \<open>
  The loop of \<^verbatim>\<open>normal_quadtree\<close>: pop a region, scan its border; then either split it and
  append the children, or fill its interior with the border colour.
\<close>

function normal_quadtree_loop ::
  "AcceleratedMandelbrot \<Rightarrow> QuadTree list \<Rightarrow> rgb list list \<Rightarrow> error + rgb list list" where
  "normal_quadtree_loop m [] pixels = Inr pixels"
| "normal_quadtree_loop m (quad_tree # queue) pixels =
     bind_err (m_calculate_quadtree m quad_tree pixels) (\<lambda>(result, pixels, _).
     let split = (hd result \<noteq> 0);
         border = tl result
     in if split then
          bind_err (QuadTree_split quad_tree 1) (\<lambda>children.
          normal_quadtree_loop m (queue @ children) pixels)
        else
          bind_err (fill_color quad_tree pixels border) (\<lambda>pixels.
          normal_quadtree_loop m queue pixels))"
  by pat_completeness auto

termination normal_quadtree_loop
proof (relation "measure (\<lambda>(m, queue, pixels). queue_weight queue)")
  show "wf (measure (\<lambda>(m, queue, pixels). queue_weight queue))"
    by simp
next
  fix m :: AcceleratedMandelbrot and quad_tree queue and children :: "QuadTree list"
    and pixels pixels' :: "rgb list list"
  assume "QuadTree_split quad_tree 1 = Inr children"
  then show "((m, queue @ children, pixels'), (m, quad_tree # queue, pixels))
      \<in> measure (\<lambda>(m, queue, pixels). queue_weight queue)"
    using split_weight [of quad_tree children] by simp
next
  fix m :: AcceleratedMandelbrot and quad_tree and queue :: "QuadTree list"
    and pixels pixels' :: "rgb list list"
  show "((m, queue, pixels'), (m, quad_tree # queue, pixels))
      \<in> measure (\<lambda>(m, queue, pixels). queue_weight queue)"
    using region_weight_pos [of quad_tree] by simp
qed

definition normal_quadtree :: "AcceleratedMandelbrot \<Rightarrow> rgb list list \<Rightarrow> error + rgb list list" where
  "normal_quadtree m pixels =
     bind_err (QuadTree_split (m_quad_tree m) 0) (\<lambda>children.
     normal_quadtree_loop m children pixels)"

text \<open>
  \<^verbatim>\<open>compute_fast_quadtree\<close>: one scan for each region of the batch, all on the same pixel
  array; the \<^verbatim>\<open>prange\<close> loop is run in index order. The batch \<^verbatim>\<open>interval\<close> of the renderer
  always lists the corners of the regions in its queue, so the model passes the regions.
\<close>

fun compute_fast_quadtree ::
  "AcceleratedMandelbrot \<Rightarrow> QuadTree list \<Rightarrow> rgb list list
     \<Rightarrow> error + (8 word list list \<times> rgb list list)" where
  "compute_fast_quadtree m [] pixels = Inr ([], pixels)"
| "compute_fast_quadtree m (quad_tree # intervals) pixels =
     bind_err (m_calculate_quadtree m quad_tree pixels) (\<lambda>(result, pixels, _).
     bind_err (compute_fast_quadtree m intervals pixels) (\<lambda>(results, pixels).
     Inr (result # results, pixels)))"

text \<open>
  The \<^verbatim>\<open>for i, result in enumerate(result_list)\<close> loop of the batched renderer: each result
  is paired with the region popped for it; the children of the regions that split are
  collected for the next batch.
\<close>

fun fast_results ::
  "(QuadTree \<times> 8 word list) list \<Rightarrow> QuadTree list \<Rightarrow> rgb list list
     \<Rightarrow> error + (QuadTree list \<times> rgb list list)" where
  "fast_results [] temp_interval pixels = Inr (temp_interval, pixels)"
| "fast_results ((quadtree, result) # rest) temp_interval pixels =
     (let split = (hd result \<noteq> 0);
          border = tl result
      in if split then
           bind_err (QuadTree_split quadtree 1) (\<lambda>children.
           fast_results rest (temp_interval @ children) pixels)
         else
           bind_err (fill_color quadtree pixels border) (\<lambda>pixels.
           fast_results rest temp_interval pixels))"

lemma fast_results_weight:
  "fast_results zs temp_interval pixels = Inr (children, pixels')
     \<Longrightarrow> queue_weight children + length zs \<le> queue_weight temp_interval + queue_weight (map fst zs)"
proof (induction zs arbitrary: temp_interval pixels)
  case Nil
  then show ?case
    by simp
next
  case (Cons z zs)
  obtain quadtree result where z: "z = (quadtree, result)"
    by (cases z)
  show ?case
  proof (cases "hd result \<noteq> 0")
    case True
    with Cons.prems z obtain ch where ch: "QuadTree_split quadtree 1 = Inr ch"
      "fast_results zs (temp_interval @ ch) pixels = Inr (children, pixels')"
      by (cases "QuadTree_split quadtree 1") (simp_all add: bind_err_def)
    from Cons.IH [OF ch(2)] split_weight [OF ch(1)] show ?thesis
      by (simp add: z)
  next
    case False
    with Cons.prems z obtain px where px:
      "fast_results zs temp_interval px = Inr (children, pixels')"
      by (cases "fill_color quadtree pixels (tl result)") (simp_all add: bind_err_def)
    from Cons.IH [OF px] region_weight_pos [of quadtree] show ?thesis
      by (simp add: z)
  qed
qed

lemma queue_weight_zip: "queue_weight (map fst (zip queue results)) \<le> queue_weight queue"
proof (induction queue arbitrary: results)
  case Nil
  then show ?case
    by simp
next
  case (Cons q queue)
  then show ?case
    by (cases results) (simp_all add: le_SucI trans_le_add2)
qed

lemma batch_weight:
  assumes "queue \<noteq> []" "fast_results (zip queue results) [] pixels = Inr (children, pixels')"
  shows "queue_weight children < queue_weight queue"
proof (cases "zip queue results")
  case Nil
  with assms(2) have "children = []"
    by simp
  moreover from assms(1) have "0 < queue_weight queue"
    using region_weight_pos by (cases queue) (simp_all add: trans_less_add1)
  ultimately show ?thesis
    by simp
next
  case (Cons z zs)
  from fast_results_weight [OF assms(2)] have
    "queue_weight children + length (zip queue results) \<le> queue_weight (map fst (zip queue results))"
    by simp
  with Cons have "queue_weight children < queue_weight (map fst (zip queue results))"
    by simp
  then show ?thesis
    using queue_weight_zip [of queue results] by linarith
qed

text \<open>The \<^verbatim>\<open>while queue\<close> loop of the batched renderer.\<close>

function fast_quadtree_loop ::
  "AcceleratedMandelbrot \<Rightarrow> QuadTree list \<Rightarrow> rgb list list \<Rightarrow> error + rgb list list" where
  "fast_quadtree_loop m queue pixels =
     (if queue = [] then Inr pixels
      else
        bind_err (compute_fast_quadtree m queue pixels) (\<lambda>(result_list, pixels).
        bind_err (fast_results (zip queue result_list) [] pixels) (\<lambda>(temp_interval, pixels).
        fast_quadtree_loop m temp_interval pixels)))"
  by pat_completeness auto

termination fast_quadtree_loop
proof (relation "measure (\<lambda>(m, queue, pixels). queue_weight queue)")
  show "wf (measure (\<lambda>(m, queue, pixels). queue_weight queue))"
    by simp
next
  fix m :: AcceleratedMandelbrot and queue temp_interval :: "QuadTree list"
    and pixels pixels' pixels'' :: "rgb list list" and result_list :: "8 word list list"
    and v :: "8 word list list \<times> rgb list list" and w :: "QuadTree list \<times> rgb list list"
  assume "queue \<noteq> []" "(result_list, pixels') = v"
    and "fast_results (zip queue result_list) [] pixels' = Inr w" "(temp_interval, pixels'') = w"
  then show "((m, temp_interval, pixels''), (m, queue, pixels))
      \<in> measure (\<lambda>(m, queue, pixels). queue_weight queue)"
    using batch_weight [of queue result_list pixels' temp_interval pixels''] by auto
qed

declare fast_quadtree_loop.simps [simp del]

text \<open>
  The loop of \<^verbatim>\<open>mixed_quadtree\<close>. The renderer reads every result as
  \<^verbatim>\<open>[split, isMandelbrot, r, g, b]\<close>: \<^verbatim>\<open>result[1] != 0\<close> is the membership flag and \<^verbatim>\<open>result[2:]\<close>
  the colour, also for the four-entry result of a \<open>1 \<times> 1\<close> region.
\<close>

function mixed_quadtree_loop ::
  "AcceleratedMandelbrot \<Rightarrow> QuadTree list \<Rightarrow> rgb list list \<times> bool list list
     \<Rightarrow> error + (rgb list list \<times> bool list list)" where
  "mixed_quadtree_loop m [] state = Inr state"
| "mixed_quadtree_loop m (quad_tree # queue) state =
     bind_err (m_calculate_mixed m quad_tree (fst state) (snd state)) (\<lambda>(result, pixels, seen).
     let split = (hd result \<noteq> 0);
         isMandelbrot = (result ! 1 \<noteq> 0);
         border = drop 2 result
     in if split then
          bind_err (QuadTree_split quad_tree 1) (\<lambda>children.
          mixed_quadtree_loop m (queue @ children) (pixels, seen))
        else if isMandelbrot then
          bind_err (fill_color quad_tree pixels border) (\<lambda>pixels.
          bind_err (QuadTree_fill_array quad_tree seen True 1) (\<lambda>seen.
          mixed_quadtree_loop m queue (pixels, seen)))
        else mixed_quadtree_loop m queue (pixels, seen))"
  by pat_completeness auto

termination mixed_quadtree_loop
proof (relation "measure (\<lambda>(m, queue, state). queue_weight queue)")
  show "wf (measure (\<lambda>(m, queue, state). queue_weight queue))"
    by simp
next
  fix m :: AcceleratedMandelbrot and quad_tree queue and children :: "QuadTree list"
    and state state' :: "rgb list list \<times> bool list list"
  assume "QuadTree_split quad_tree 1 = Inr children"
  then show "((m, queue @ children, state'), (m, quad_tree # queue, state))
      \<in> measure (\<lambda>(m, queue, state). queue_weight queue)"
    using split_weight [of quad_tree children] by simp
next
  fix m :: AcceleratedMandelbrot and quad_tree and queue :: "QuadTree list"
    and state state' :: "rgb list list \<times> bool list list"
  show "((m, queue, state'), (m, quad_tree # queue, state))
      \<in> measure (\<lambda>(m, queue, state). queue_weight queue)"
    using region_weight_pos [of quad_tree] by simp
next
  fix m :: AcceleratedMandelbrot and quad_tree and queue :: "QuadTree list"
    and state state' :: "rgb list list \<times> bool list list"
  show "((m, queue, state'), (m, quad_tree # queue, state))
      \<in> measure (\<lambda>(m, queue, state). queue_weight queue)"
    using region_weight_pos [of quad_tree] by simp
qed

text \<open>
  \<^verbatim>\<open>mixed_quadtree\<close>: the queue loop on a fresh \<^verbatim>\<open>seen\<close> array, then the raster pass over the
  pixels not marked seen.
\<close>

definition mixed_quadtree :: "AcceleratedMandelbrot \<Rightarrow> rgb list list \<Rightarrow> error + rgb list list" where
  "mixed_quadtree m pixels =
     bind_err (QuadTree_split (m_quad_tree m) 0) (\<lambda>children.
     let seen = replicate (nat (snd (m_size m))) (replicate (nat (fst (m_size m))) False) in
     bind_err (mixed_quadtree_loop m children (pixels, seen)) (\<lambda>(pixels, seen).
     m_compute_raster m pixels seen))"

text \<open>
  \<^verbatim>\<open>fast_mixed_quadtree\<close> stores each result of \<^verbatim>\<open>calculate_mixed\<close> into a row of four
  entries of \<^verbatim>\<open>results\<close>; a five-entry result does not fit, and the assignment raises.
\<close>

fun fast_mixed_quadtree ::
  "AcceleratedMandelbrot \<Rightarrow> QuadTree list \<Rightarrow> rgb list list \<times> bool list list
     \<Rightarrow> error + (8 word list list \<times> rgb list list \<times> bool list list)" where
  "fast_mixed_quadtree m [] state = Inr ([], state)"
| "fast_mixed_quadtree m (quad_tree # intervals) state =
     bind_err (m_calculate_mixed m quad_tree (fst state) (snd state)) (\<lambda>(result, pixels, seen).
     if length result \<noteq> 4 then Inl ValueError
     else
       bind_err (fast_mixed_quadtree m intervals (pixels, seen)) (\<lambda>(results, state).
       Inr (result # results, state)))"

fun fast_mixed_results ::
  "(QuadTree \<times> 8 word list) list \<Rightarrow> QuadTree list \<Rightarrow> rgb list list \<times> bool list list
     \<Rightarrow> error + (QuadTree list \<times> rgb list list \<times> bool list list)" where
  "fast_mixed_results [] temp_interval state = Inr (temp_interval, state)"
| "fast_mixed_results ((quadtree, result) # rest) temp_interval state =
     (let split = (hd result \<noteq> 0);
          isMandelbrot = (result ! 1 \<noteq> 0);
          border = drop 2 result
      in if split then
           bind_err (QuadTree_split quadtree 1) (\<lambda>children.
           fast_mixed_results rest (temp_interval @ children) state)
         else if isMandelbrot then
           bind_err (fill_color quadtree (fst state) border) (\<lambda>pixels.
           bind_err (QuadTree_fill_array quadtree (snd state) True 1) (\<lambda>seen.
           fast_mixed_results rest temp_interval (pixels, seen)))
         else fast_mixed_results rest temp_interval state)"

lemma fast_mixed_results_weight:
  "fast_mixed_results zs temp_interval state = Inr (children, state')
     \<Longrightarrow> queue_weight children + length zs \<le> queue_weight temp_interval + queue_weight (map fst zs)"
proof (induction zs arbitrary: temp_interval state)
  case Nil
  then show ?case
    by simp
next
  case (Cons z zs)
  obtain quadtree result where z: "z = (quadtree, result)"
    by (cases z)
  consider (split) "hd result \<noteq> 0"
    | (fill) "\<not> hd result \<noteq> 0" "result ! 1 \<noteq> 0"
    | (skip) "\<not> hd result \<noteq> 0" "\<not> result ! 1 \<noteq> 0"
    by blast
  then show ?case
  proof cases
    case split
    with Cons.prems z obtain ch where ch: "QuadTree_split quadtree 1 = Inr ch"
      "fast_mixed_results zs (temp_interval @ ch) state = Inr (children, state')"
      by (cases "QuadTree_split quadtree 1") (simp_all add: bind_err_def)
    from Cons.IH [OF ch(2)] split_weight [OF ch(1)] show ?thesis
      by (simp add: z)
  next
    case fill
    with Cons.prems z obtain st where st:
      "fast_mixed_results zs temp_interval st = Inr (children, state')"
      by (cases "fill_color quadtree (fst state) (drop 2 result)";
          cases "QuadTree_fill_array quadtree (snd state) True 1")
        (simp_all add: bind_err_def)
    from Cons.IH [OF st] region_weight_pos [of quadtree] show ?thesis
      by (simp add: z)
  next
    case skip
    with Cons.prems z have st:
      "fast_mixed_results zs temp_interval state = Inr (children, state')"
      by simp
    from Cons.IH [OF st] region_weight_pos [of quadtree] show ?thesis
      by (simp add: z)
  qed
qed

lemma mixed_batch_weight:
  assumes "queue \<noteq> []" "fast_mixed_results (zip queue results) [] state = Inr (children, state')"
  shows "queue_weight children < queue_weight queue"
proof (cases "zip queue results")
  case Nil
  with assms(2) have "children = []"
    by simp
  moreover from assms(1) have "0 < queue_weight queue"
    using region_weight_pos by (cases queue) (simp_all add: trans_less_add1)
  ultimately show ?thesis
    by simp
next
  case (Cons z zs)
  from fast_mixed_results_weight [OF assms(2)] have
    "queue_weight children + length (zip queue results) \<le> queue_weight (map fst (zip queue results))"
    by simp
  with Cons have "queue_weight children < queue_weight (map fst (zip queue results))"
    by simp
  then show ?thesis
    using queue_weight_zip [of queue results] by linarith
qed

function fast_mixed_loop ::
  "AcceleratedMandelbrot \<Rightarrow> QuadTree list \<Rightarrow> rgb list list \<times> bool list list
     \<Rightarrow> error + (rgb list list \<times> bool list list)" where
  "fast_mixed_loop m queue state =
     (if queue = [] then Inr state
      else
        bind_err (fast_mixed_quadtree m queue state) (\<lambda>(result_list, state).
        bind_err (fast_mixed_results (zip queue result_list) [] state) (\<lambda>(temp_interval, state).
        fast_mixed_loop m temp_interval state)))"
  by pat_completeness auto

termination fast_mixed_loop
proof (relation "measure (\<lambda>(m, queue, state). queue_weight queue)")
  show "wf (measure (\<lambda>(m, queue, state). queue_weight queue))"
    by simp
next
  fix m :: AcceleratedMandelbrot and queue temp_interval :: "QuadTree list"
    and state state' state'' :: "rgb list list \<times> bool list list" and result_list :: "8 word list list"
    and v :: "8 word list list \<times> rgb list list \<times> bool list list"
    and w :: "QuadTree list \<times> rgb list list \<times> bool list list"
  assume "queue \<noteq> []" "(result_list, state') = v"
    and "fast_mixed_results (zip queue result_list) [] state' = Inr w" "(temp_interval, state'') = w"
  then show "((m, temp_interval, state''), (m, queue, state))
      \<in> measure (\<lambda>(m, queue, state). queue_weight queue)"
    using mixed_batch_weight [of queue result_list state' temp_interval state''] by auto
qed

declare fast_mixed_loop.simps [simp del]

text \<open>
  \<^verbatim>\<open>generate\<close>. In raster mode the raster pass is called with an array \<^verbatim>\<open>seen\<close> of shape
  \<open>(1, 0)\<close>; the \<^verbatim>\<open>if self.mixed_raster\<close> statement that follows it is a statement of its own,
  so a renderer in raster mode goes on into one of the queue loops.
\<close>

definition Accelerated_generate :: "AcceleratedMandelbrot \<Rightarrow> error + rgb list list" where
  "Accelerated_generate m =
     bind_err (if m_raster m then m_compute_raster m (m_pixels m) [[]] else Inr (m_pixels m))
       (\<lambda>pixels.
     if m_mixed_raster m then
       if m_fast_quadtree m then
         bind_err (QuadTree_split (m_quad_tree m) 0) (\<lambda>children.
         let seen = replicate (nat (snd (m_size m))) (replicate (nat (fst (m_size m))) False) in
         bind_err (fast_mixed_loop m children (pixels, seen)) (\<lambda>(pixels, seen).
         m_compute_raster m pixels seen))
       else mixed_quadtree m pixels
     else
       if m_fast_quadtree m then
         bind_err (QuadTree_split (m_quad_tree m) 0) (\<lambda>children.
         fast_quadtree_loop m children pixels)
       else normal_quadtree m pixels)"

section \<open>What a scan and a fill do to the pixel array\<close>

text \<open>
  Vocabulary for the renderers: the colour the renderer's evaluator computes for a pixel; a
  region that lies inside the sample grid and is not empty; the cells a plain scan writes
  (the border, or nothing for a \<open>1 \<times> 1\<close> region) and the array it leaves; its verdict; the
  cells \<^verbatim>\<open>fill_array\<close> writes with inset 1, and the array it leaves.
\<close>

definition m_color :: "AcceleratedMandelbrot \<Rightarrow> int \<times> int \<Rightarrow> rgb" where
  "m_color m = accel_color (m_x m) (m_y m) (m_max_iterations m) (m_escape_radius m) (m_smooth m)
                 (m_color_scheme m) (m_period_checking m)"

definition region_ok :: "real list \<Rightarrow> real list \<Rightarrow> QuadTree \<Rightarrow> bool" where
  "region_ok x y q \<longleftrightarrow>
     0 \<le> fst (top_left q) \<and> fst (top_left q) < fst (bottom_right q) \<and>
     fst (bottom_right q) \<le> int (length x) \<and>
     0 \<le> snd (top_left q) \<and> snd (top_left q) < snd (bottom_right q) \<and>
     snd (bottom_right q) \<le> int (length y)"

definition single :: "QuadTree \<Rightarrow> bool" where
  "single q \<longleftrightarrow> QuadTree_rows q = 1 \<and> QuadTree_cols q = 1"

definition scan_cells :: "QuadTree \<Rightarrow> (int \<times> int) set" where
  "scan_cells q = (if single q then {} else border_cells q)"

definition scan_pixels :: "(int \<times> int \<Rightarrow> rgb) \<Rightarrow> QuadTree \<Rightarrow> rgb list list \<Rightarrow> rgb list list" where
  "scan_pixels f q pixels =
     (if single q then pixels
      else write_calls f (border_calls (top_left q) (bottom_right q)) pixels)"

definition scan_log :: "QuadTree \<Rightarrow> (int \<times> int) list" where
  "scan_log q = (if single q then [top_left q] else border_calls (top_left q) (bottom_right q))"

definition wants_split :: "(int \<times> int \<Rightarrow> rgb) \<Rightarrow> QuadTree \<Rightarrow> bool" where
  "wants_split f q \<longleftrightarrow>
     3 \<le> QuadTree_cols q \<and> 3 \<le> QuadTree_rows q \<and> (\<exists>p \<in> border_cells q. f p \<noteq> f (top_left q))"

definition scan_result :: "(int \<times> int \<Rightarrow> rgb) \<Rightarrow> QuadTree \<Rightarrow> 8 word list" where
  "scan_result f q =
     (case f (top_left q) of (b0, b1, b2) \<Rightarrow> [if wants_split f q then 1 else 0, b0, b1, b2])"

definition interior :: "QuadTree \<Rightarrow> (int \<times> int) set" where
  "interior q = {fst (top_left q) + 1..<fst (bottom_right q) - 1}
              \<times> {snd (top_left q) + 1..<snd (bottom_right q) - 1}"

definition interior_fill :: "QuadTree \<Rightarrow> 'a \<Rightarrow> 'a list list \<Rightarrow> 'a list list" where
  "interior_fill q v a =
     assign_slice a (snd (top_left q) + 1) (snd (bottom_right q) - 1)
       (fst (top_left q) + 1) (fst (bottom_right q) - 1) v"

text \<open>
  What follows the scan of a region in the plain renderers: nothing but the split for a
  region that wants it, the fill with the border colour for any other; and the children a
  region contributes to the queue.
\<close>

definition post :: "(int \<times> int \<Rightarrow> rgb) \<Rightarrow> QuadTree \<Rightarrow> rgb list list \<Rightarrow> rgb list list" where
  "post f q pixels = (if wants_split f q then pixels else interior_fill q (f (top_left q)) pixels)"

definition kids :: "(int \<times> int \<Rightarrow> rgb) \<Rightarrow> QuadTree \<Rightarrow> QuadTree list" where
  "kids f q =
     (if wants_split f q then (case QuadTree_split q 1 of Inl e \<Rightarrow> [] | Inr children \<Rightarrow> children)
      else [])"

text \<open>The regions of a queue lie inside the grid and no two of them share a cell.\<close>

fun disjoint_regions :: "QuadTree list \<Rightarrow> bool" where
  "disjoint_regions [] = True"
| "disjoint_regions (q # qs) = ((\<forall>r \<in> set qs. cells q \<inter> cells r = {}) \<and> disjoint_regions qs)"

definition queue_ok :: "real list \<Rightarrow> real list \<Rightarrow> QuadTree list \<Rightarrow> bool" where
  "queue_ok x y qs \<longleftrightarrow> list_all (region_ok x y) qs \<and> disjoint_regions qs"

text \<open>
  Whether the accelerated evaluator reports the pixel in column \<open>i\<close>, row \<open>j\<close> as a member of
  the set (\<^verbatim>\<open>calculate(...)[0] == 1\<close>), and the loop invariant of the mixed scan once it has
  visited the cells \<open>V\<close>: both arrays have the shape of the grid, the visited cells hold
  their colour and are marked seen, every other cell is as before, and the two flags say
  whether all, and whether some, of the visited pixels are members.
\<close>

definition accel_in_set ::
  "real list \<Rightarrow> real list \<Rightarrow> nat \<Rightarrow> real \<Rightarrow> bool \<Rightarrow> colorscheme \<Rightarrow> bool \<Rightarrow> int \<times> int \<Rightarrow> bool" where
  "accel_in_set x y max_iterations escape_radius smooth color_scheme period_checking p \<longleftrightarrow>
     fst (Accelerated_calculate (x ! nat (fst p)) (y ! nat (snd p)) max_iterations escape_radius
            smooth color_scheme period_checking) = 1"

definition m_in_set :: "AcceleratedMandelbrot \<Rightarrow> int \<times> int \<Rightarrow> bool" where
  "m_in_set m = accel_in_set (m_x m) (m_y m) (m_max_iterations m) (m_escape_radius m) (m_smooth m)
                  (m_color_scheme m) (m_period_checking m)"

definition mixed_inv ::
  "(int \<times> int \<Rightarrow> rgb) \<Rightarrow> (int \<times> int \<Rightarrow> bool) \<Rightarrow> real list \<Rightarrow> real list \<Rightarrow> rgb list list
     \<Rightarrow> bool list list \<Rightarrow> (int \<times> int) set \<Rightarrow> mscan \<Rightarrow> bool" where
  "mixed_inv f ins x y pixels seen V s \<longleftrightarrow>
     fits x y (ms_pixels s) \<and> fits x y (ms_seen s) \<and>
     (\<forall>i j. 0 \<le> i \<and> i < int (length x) \<and> 0 \<le> j \<and> j < int (length y) \<longrightarrow>
        ms_pixels s ! nat j ! nat i = (if (i, j) \<in> V then f (i, j) else pixels ! nat j ! nat i) \<and>
        ms_seen s ! nat j ! nat i = ((i, j) \<in> V \<or> seen ! nat j ! nat i)) \<and>
     ms_isMandelbrot s = (\<forall>p \<in> V. ins p) \<and>
     ms_hasMandelbrot s = (\<exists>p \<in> V. ins p)"

section \<open>Vocabulary for the non-accelerated scan\<close>

text \<open>
  The colour the non-accelerated evaluator computes for the pixel in column \<open>i\<close>, row \<open>j\<close>
  (without a memo dictionary); a memo dictionary that holds nothing but results of that
  evaluator; and the loop invariant of the plain scan once it has visited the cells \<open>V\<close>,
  \<open>c0\<close> being the colour of the first pixel it evaluates.
\<close>

definition normal_color ::
  "real list \<Rightarrow> real list \<Rightarrow> nat \<Rightarrow> real \<Rightarrow> bool \<Rightarrow> color_scheme \<Rightarrow> bool \<Rightarrow> int \<times> int \<Rightarrow> rgb" where
  "normal_color x y max_iterations escape_radius smooth color_scheme period_checking p =
     fst (fst (Normal_calculate (x ! nat (fst p)) (y ! nat (snd p)) max_iterations escape_radius
                 smooth color_scheme period_checking None))"

definition memo_ok :: "nat \<Rightarrow> real \<Rightarrow> bool \<Rightarrow> color_scheme \<Rightarrow> bool \<Rightarrow> memo option \<Rightarrow> bool" where
  "memo_ok max_iterations escape_radius smooth color_scheme period_checking memo \<longleftrightarrow>
     (case memo of
        None \<Rightarrow> True
      | Some m \<Rightarrow>
          \<forall>k v. m k = Some v \<longrightarrow>
            v = fst (Normal_calculate (fst k) (snd k) max_iterations escape_radius smooth
                       color_scheme period_checking None))"

definition normal_inv ::
  "(int \<times> int \<Rightarrow> rgb) \<Rightarrow> (memo option \<Rightarrow> bool) \<Rightarrow> rgb \<Rightarrow> real list \<Rightarrow> real list \<Rightarrow> rgb list list
     \<Rightarrow> (int \<times> int) set \<Rightarrow> nscan \<Rightarrow> bool" where
  "normal_inv f ok c0 x y pixels V s \<longleftrightarrow>
     fits x y (ns_pixels s) \<and>
     (\<forall>i j. 0 \<le> i \<and> i < int (length x) \<and> 0 \<le> j \<and> j < int (length y) \<longrightarrow>
        ns_pixels s ! nat j ! nat i = (if (i, j) \<in> V then f (i, j) else pixels ! nat j ! nat i)) \<and>
     ok (ns_memo s) \<and>
     ns_border s = Some c0 \<and>
     ns_split s = (\<exists>p \<in> V. f p \<noteq> c0)"
section \<open>Properties of QuadTree\<close>

subsection \<open>The repository's own tests (tests/quadtree\_test.py)\<close>

lemma test_split:
  "QuadTree_split \<lparr>top_left = (0, 0), bottom_right = (10, 10)\<rparr> 1 =
     Inr [\<lparr>top_left = (1, 1), bottom_right = (5, 5)\<rparr>,
          \<lparr>top_left = (5, 1), bottom_right = (9, 5)\<rparr>,
          \<lparr>top_left = (1, 5), bottom_right = (5, 9)\<rparr>,
          \<lparr>top_left = (5, 5), bottom_right = (9, 9)\<rparr>]"
  by (simp add: QuadTree_split_def)

lemma test_fill_array_with_small_array:
  "QuadTree_fill_array \<lparr>top_left = (0, 0), bottom_right = (10, 10)\<rparr>
     (replicate 5 (replicate 5 (0::int))) 1 1 = Inl ArrayTooSmall"
  by (simp add: QuadTree_fill_array_def numeral_eq_Suc)

subsection \<open>When split raises\<close>



subsection \<open>Filling into a buffer that is too small\<close>

text \<open>
  The guard of \<open>fill_array\<close> raises only when the buffer is too small on both axes. The
  repository's test \<open>test_fill_array_with_small_array\<close> uses a buffer that is too small on
  both, so it passes.
\<close>

lemma fill_array_raises_iff:
  "(\<exists>e. QuadTree_fill_array q array v boundary = Inl e) \<longleftrightarrow>
     int (length array) < snd (bottom_right q) \<and>
     (array = [] \<or> int (length (hd array)) < fst (bottom_right q))"
  by (auto simp: QuadTree_fill_array_def Let_def split: list.splits)

text \<open>
  C10 (the code departs from the claim). A buffer of 5 rows and 20 columns is smaller than
  the region \<open>(0,0)..(10,10)\<close> on the row axis only. \<open>fill_array\<close> does not raise: the slice
  assignment is clipped to the rows that exist and the buffer is written.
\<close>

theorem fill_array_small_on_one_axis:
  "QuadTree_fill_array \<lparr>top_left = (0, 0), bottom_right = (10, 10)\<rparr>
       (replicate 5 (replicate 20 (0::int))) 1 1
   = Inr (replicate 20 0 # replicate 4 (0 # replicate 8 1 @ replicate 11 0))"
  by (simp add: QuadTree_fill_array_def assign_slice_def slice_bound_def numeral_eq_Suc)

subsection \<open>Geometry of a split\<close>

lemma split_even_square:
  assumes "2 \<le> n"
  shows "QuadTree_split \<lparr>top_left = (a, b), bottom_right = (a + 2 * n, b + 2 * n)\<rparr> 1 =
     Inr [\<lparr>top_left = (a + 1, b + 1), bottom_right = (a + n, b + n)\<rparr>,
          \<lparr>top_left = (a + n, b + 1), bottom_right = (a + 2 * n - 1, b + n)\<rparr>,
          \<lparr>top_left = (a + 1, b + n), bottom_right = (a + n, b + 2 * n - 1)\<rparr>,
          \<lparr>top_left = (a + n, b + n), bottom_right = (a + 2 * n - 1, b + 2 * n - 1)\<rparr>]"
proof -
  have "(2 * n - 2) div 2 = n - 1"
    by simp
  with assms show ?thesis
    by (simp add: QuadTree_split_def Let_def)
qed



section \<open>Properties of the point evaluators\<close>

subsection \<open>The repository's own tests (tests/*/calculation tests)\<close>

lemma test_in_main_body: "in_main_body 0.2 0.3 \<and> \<not> in_main_body 1 0"
  by (simp add: in_main_body_def Let_def)

lemma test_calculate:
  "fst (Accelerated_calculate 0.2 0.3 100 2 True determine_colorscheme False) = 1"
  using test_in_main_body by (simp add: Accelerated_calculate_def evaluate_accel_def)

subsection \<open>The loops follow the orbit and stop at the first escape\<close>

lemma orbit_at_Suc: "orbit_at x0 y0 (Suc k) = orbit_step x0 y0 (orbit_at x0 y0 k)"
  by (simp add: orbit_at_def)

lemma steps_orbit_at: "o_steps (orbit_at x0 y0 k) = k"
  by (induction k) (simp_all add: orbit_at_def orbit_init_def orbit_step_def Let_def)

lemma same_orbit_step:
  "same_orbit s t \<Longrightarrow> same_orbit (orbit_step x0 y0 s) (orbit_step x0 y0 t)"
  by (simp add: same_orbit_def orbit_step_def Let_def)

lemma same_orbit_bookkeeping:
  "same_orbit (s\<lparr>o_period := p\<rparr>) t = same_orbit s t"
  "same_orbit (s\<lparr>o_period := p, o_x_old := a, o_y_old := b\<rparr>) t = same_orbit s t"
  "same_orbit (s\<lparr>o_iterations := n\<rparr>) t = same_orbit s t"
  by (simp_all add: same_orbit_def)

lemma same_orbit_mag2: "same_orbit s t \<Longrightarrow> mag2 s = mag2 t"
  by (simp add: same_orbit_def mag2_def)

lemma step_fields:
  "o_steps (orbit_step x0 y0 s) = Suc (o_steps s)"
  "o_iterations (orbit_step x0 y0 s) = Suc (o_iterations s)"
  "o_period (orbit_step x0 y0 s) = o_period s"
  by (simp_all add: orbit_step_def Let_def)

lemma stops_at_first_forced:
  assumes "same_orbit s (orbit_at x0 y0 (o_steps s))"
    and "\<forall>j. 1 \<le> j \<and> j < o_steps s \<longrightarrow> \<not> esc (mag2 (orbit_at x0 y0 j))"
  shows "stops_at_first esc x0 y0 mi (s\<lparr>o_iterations := mi\<rparr>)"
  using assms by (simp add: stops_at_first_def same_orbit_def)

text \<open>The loop of the accelerated evaluator, started on the orbit after \<open>o_steps s\<close> steps.\<close>

lemma accel_loop_orbit:
  assumes "same_orbit s (orbit_at x0 y0 (o_steps s))"
    and "\<forall>j. 1 \<le> j \<and> j \<le> o_steps s \<longrightarrow> mag2 (orbit_at x0 y0 j) < ers"
    and "o_iterations s = o_steps s" and "o_steps s + n = mi"
  shows "stops_at_first (\<lambda>m. ers \<le> m) x0 y0 mi (accel_loop x0 y0 mi ers pc n s)"
  using assms
proof (induction n arbitrary: s)
  case 0
  then show ?case by (auto simp: stops_at_first_def)
next
  case (Suc n)
  let ?s1 = "orbit_step x0 y0 s"
  have on1: "same_orbit ?s1 (orbit_at x0 y0 (o_steps ?s1))"
    using same_orbit_step [OF Suc.prems(1), of x0 y0]
    by (simp add: step_fields orbit_at_Suc)
  have m1: "mag2 ?s1 = mag2 (orbit_at x0 y0 (Suc (o_steps s)))"
    using same_orbit_mag2 [OF on1] by (simp add: step_fields)
  show ?case
  proof (cases "ers \<le> mag2 ?s1")
    case True
    have "stops_at_first (\<lambda>m. ers \<le> m) x0 y0 mi ?s1"
      using on1 Suc.prems True by (auto simp: stops_at_first_def step_fields not_le)
    with True show ?thesis
      by (simp add: Let_def mag2_def)
  next
    case False
    then have pre: "\<forall>j. 1 \<le> j \<and> j \<le> Suc (o_steps s) \<longrightarrow> mag2 (orbit_at x0 y0 j) < ers"
      using Suc.prems(2) m1 by (auto simp: le_Suc_eq)
    have hit: "stops_at_first (\<lambda>m. ers \<le> m) x0 y0 mi (?s1\<lparr>o_iterations := mi\<rparr>)"
      using on1 pre by (intro stops_at_first_forced) (auto simp: step_fields not_le)
    have ih1: "stops_at_first (\<lambda>m. ers \<le> m) x0 y0 mi (accel_loop x0 y0 mi ers pc n t)"
      if "same_orbit t ?s1" "o_iterations t = o_iterations ?s1" for t
    proof (rule Suc.IH)
      have st: "o_steps t = o_steps ?s1"
        using that by (simp add: same_orbit_def)
      show "same_orbit t (orbit_at x0 y0 (o_steps t))"
        using that on1 by (simp add: same_orbit_def)
      show "\<forall>j. 1 \<le> j \<and> j \<le> o_steps t \<longrightarrow> mag2 (orbit_at x0 y0 j) < ers"
        using st pre by (simp add: step_fields)
      show "o_iterations t = o_steps t"
        using st that Suc.prems(3) by (simp add: step_fields)
      show "o_steps t + n = mi"
        using st Suc.prems(4) by (simp add: step_fields)
    qed
    have a: "stops_at_first (\<lambda>m. ers \<le> m) x0 y0 mi (accel_loop x0 y0 mi ers pc n
               (?s1\<lparr>o_period := 0, o_x_old := o_x ?s1, o_y_old := o_y ?s1\<rparr>))"
      by (rule ih1) (simp_all add: same_orbit_def)
    have b: "stops_at_first (\<lambda>m. ers \<le> m) x0 y0 mi (accel_loop x0 y0 mi ers pc n
               (?s1\<lparr>o_period := o_period ?s1 + 1\<rparr>))"
      by (rule ih1) (simp_all add: same_orbit_def)
    have c: "stops_at_first (\<lambda>m. ers \<le> m) x0 y0 mi (accel_loop x0 y0 mi ers pc n ?s1)"
      by (rule ih1) (simp_all add: same_orbit_def)
    define r where "r = accel_loop x0 y0 mi ers pc (Suc n) s"
    have "r \<in>
            {?s1\<lparr>o_iterations := mi\<rparr>,
             accel_loop x0 y0 mi ers pc n (?s1\<lparr>o_period := 0, o_x_old := o_x ?s1, o_y_old := o_y ?s1\<rparr>),
             accel_loop x0 y0 mi ers pc n (?s1\<lparr>o_period := o_period ?s1 + 1\<rparr>),
             accel_loop x0 y0 mi ers pc n ?s1}"
      unfolding r_def using False by (auto simp: Let_def mag2_def)
    with a b c hit have "stops_at_first (\<lambda>m. ers \<le> m) x0 y0 mi r"
      by auto
    then show ?thesis
      by (simp only: r_def)
  qed
qed

text \<open>The loop of the non-accelerated evaluator: the escape test precedes each step.\<close>

lemma normal_loop_orbit:
  assumes "same_orbit s (orbit_at x0 y0 (o_steps s))"
    and "\<forall>j. 1 \<le> j \<and> j < o_steps s \<longrightarrow> mag2 (orbit_at x0 y0 j) \<le> ers"
    and "o_iterations s = o_steps s" and "o_iterations s \<le> mi"
  shows "stops_at_first (\<lambda>m. ers < m) x0 y0 mi (normal_loop x0 y0 mi ers pc s)"
  using assms
proof (induction x0 y0 mi ers pc s rule: normal_loop.induct)
  case (1 x0 y0 mi ers pc s)
  let ?s1 = "orbit_step x0 y0 s"
  show ?case
  proof (cases "o_x2 s + o_y2 s \<le> ers \<and> o_iterations s < mi")
    case False
    have "normal_loop x0 y0 mi ers pc s = s"
      by (subst normal_loop.simps) (simp add: False)
    moreover have "stops_at_first (\<lambda>m. ers < m) x0 y0 mi s"
      using False "1.prems" by (auto simp: stops_at_first_def mag2_def not_less)
    ultimately show ?thesis by simp
  next
    case True
    have on1: "same_orbit ?s1 (orbit_at x0 y0 (o_steps ?s1))"
      using same_orbit_step [OF "1.prems"(1), of x0 y0]
      by (simp add: step_fields orbit_at_Suc)
    have m0: "mag2 (orbit_at x0 y0 (o_steps s)) \<le> ers"
      using True same_orbit_mag2 [OF "1.prems"(1)] by (simp add: mag2_def)
    have pre: "\<forall>j. 1 \<le> j \<and> j < Suc (o_steps s) \<longrightarrow> mag2 (orbit_at x0 y0 j) \<le> ers"
      using "1.prems"(2) m0 by (auto simp: less_Suc_eq)
    have hit: "stops_at_first (\<lambda>m. ers < m) x0 y0 mi (?s1\<lparr>o_iterations := mi\<rparr>)"
      using on1 pre by (intro stops_at_first_forced) (auto simp: step_fields not_less)
    have side: "same_orbit t (orbit_at x0 y0 (o_steps t))"
        "\<forall>j. 1 \<le> j \<and> j < o_steps t \<longrightarrow> mag2 (orbit_at x0 y0 j) \<le> ers"
        "o_iterations t = o_steps t" "o_iterations t \<le> mi"
      if "same_orbit t ?s1" "o_iterations t = o_iterations ?s1" for t
    proof -
      have st: "o_steps t = o_steps ?s1"
        using that by (simp add: same_orbit_def)
      show "same_orbit t (orbit_at x0 y0 (o_steps t))"
        using that on1 by (simp add: same_orbit_def)
      show "\<forall>j. 1 \<le> j \<and> j < o_steps t \<longrightarrow> mag2 (orbit_at x0 y0 j) \<le> ers"
        using st pre by (simp add: step_fields)
      show "o_iterations t = o_steps t"
        using st that "1.prems"(3) by (simp add: step_fields)
      show "o_iterations t \<le> mi"
        using that True by (simp add: step_fields)
    qed
    have a: "stops_at_first (\<lambda>m. ers < m) x0 y0 mi (normal_loop x0 y0 mi ers pc
               (?s1\<lparr>o_period := 0, o_x_old := o_x ?s1, o_y_old := o_y ?s1\<rparr>))"
      if "pc" "\<not> (o_x_old ?s1 = o_x ?s1 \<and> o_y_old ?s1 = o_y ?s1)" "20 < o_period ?s1 + 1"
      by (rule "1.IH"(1) [OF True refl that]; (rule side)?) (simp_all add: same_orbit_def)
    have b: "stops_at_first (\<lambda>m. ers < m) x0 y0 mi (normal_loop x0 y0 mi ers pc
               (?s1\<lparr>o_period := o_period ?s1 + 1\<rparr>))"
      if "pc" "\<not> (o_x_old ?s1 = o_x ?s1 \<and> o_y_old ?s1 = o_y ?s1)" "\<not> 20 < o_period ?s1 + 1"
      by (rule "1.IH"(2) [OF True refl that]; (rule side)?) (simp_all add: same_orbit_def)
    have c: "stops_at_first (\<lambda>m. ers < m) x0 y0 mi (normal_loop x0 y0 mi ers pc ?s1)"
      if "\<not> pc"
      by (rule "1.IH"(3) [OF True refl that]; (rule side)?) (simp_all add: same_orbit_def)
    show ?thesis
      using True a b c hit
      by (subst normal_loop.simps) (simp add: Let_def)
  qed
qed

lemma accel_loop_init:
  "stops_at_first (\<lambda>m. ers \<le> m) x0 y0 mi (accel_loop x0 y0 mi ers pc mi orbit_init)"
  by (rule accel_loop_orbit) (simp_all add: same_orbit_def orbit_at_def orbit_init_def)

lemma normal_loop_init:
  "stops_at_first (\<lambda>m. ers < m) x0 y0 mi (normal_loop x0 y0 mi ers pc orbit_init)"
  by (rule normal_loop_orbit) (simp_all add: same_orbit_def orbit_at_def orbit_init_def)

lemma squares_orbit_at:
  "o_x2 (orbit_at x0 y0 k) = o_x (orbit_at x0 y0 k) * o_x (orbit_at x0 y0 k)"
  "o_y2 (orbit_at x0 y0 k) = o_y (orbit_at x0 y0 k) * o_y (orbit_at x0 y0 k)"
  by (cases k; simp add: orbit_at_def orbit_init_def orbit_step_def Let_def)+

lemma stops_at_first_squares:
  assumes "stops_at_first esc x0 y0 mi s"
  shows "mag2 s = o_x s * o_x s + o_y s * o_y s"
  using assms squares_orbit_at [of x0 y0 "o_steps s"]
  by (simp add: stops_at_first_def same_orbit_def mag2_def)

subsection \<open>Main-body short circuit\<close>

text \<open>
  C3. For every point that satisfies the main-body inequality both evaluators return
  \<open>in_set = True\<close> with the iteration count equal to \<open>max_iterations\<close>, and the orbit loop is
  not entered (no loop body is executed; the colour mapper receives the point itself). For
  the non-accelerated evaluator this is the result of a call that is not answered from the
  memo dictionary.
\<close>

theorem main_body_short_circuit:
  assumes "in_main_body x0 y0"
  shows "evaluate_normal x0 y0 mi er pc =
           \<lparr>in_set = True, iterations = mi, final = (x0, y0), final_dz = (0, 0),
            distance_estimate = None, orbit_steps = 0\<rparr>
       \<and> evaluate_accel x0 y0 mi er pc =
           \<lparr>in_set = True, iterations = mi, final = (x0, y0), final_dz = (0, 0),
            distance_estimate = None, orbit_steps = 0\<rparr>
       \<and> Normal_calculate x0 y0 mi er smooth cs pc None
           = ((cs mi mi None (x0, y0) er smooth, True), None)
       \<and> Accelerated_calculate x0 y0 mi er smooth dcs pc
           = (1, dcs mi mi 0 x0 y0 er smooth)"
  using assms
  by (simp add: evaluate_normal_def evaluate_accel_def Normal_calculate_def
        Accelerated_calculate_def)

theorem main_body_short_circuit_witness:
  "in_main_body 0.2 0.3
   \<and> in_set (evaluate_normal 0.2 0.3 100 2 False)
   \<and> iterations (evaluate_normal 0.2 0.3 100 2 False) = 100
   \<and> orbit_steps (evaluate_normal 0.2 0.3 100 2 False) = 0
   \<and> in_set (evaluate_accel 0.2 0.3 100 2 False)
   \<and> iterations (evaluate_accel 0.2 0.3 100 2 False) = 100
   \<and> orbit_steps (evaluate_accel 0.2 0.3 100 2 False) = 0"
proof -
  have h: "in_main_body 0.2 0.3"
    by (simp add: in_main_body_def Let_def)
  from main_body_short_circuit [OF h, of 100 2 False] h show ?thesis
    by simp
qed

subsection \<open>Domain of the distance estimate\<close>


lemma normal_at_2_0:
  "normal_loop 2 0 5 4 True orbit_init =
     \<lparr>o_x = 6, o_y = 0, o_x2 = 36, o_y2 = 0, o_w = 36, o_x_old = 0, o_y_old = 0,
      o_period = 2, o_dx = 13, o_dy = 0, o_iterations = 2, o_steps = 2\<rparr>"
  by (simp add: normal_loop.simps orbit_init_def orbit_step_def Let_def)

lemma accel_at_2_0:
  "accel_loop 2 0 5 4 True 5 orbit_init =
     \<lparr>o_x = 2, o_y = 0, o_x2 = 4, o_y2 = 0, o_w = 4, o_x_old = 0, o_y_old = 0,
      o_period = 0, o_dx = 1, o_dy = 0, o_iterations = 1, o_steps = 1\<rparr>"
  by (simp add: numeral_eq_Suc orbit_init_def orbit_step_def Let_def)

lemma not_main_2_0: "\<not> in_main_body 2 0"
  by (simp add: in_main_body_def Let_def)


subsection \<open>The escape test\<close>





section \<open>Properties of the accelerated border scan\<close>

lemma bind_err_simps [simp]: "bind_err (Inr v) f = f v" "bind_err (Inl e) f = Inl e"
  by (simp_all add: bind_err_def)

lemma np_get_ok: "0 \<le> i \<Longrightarrow> i < int (length xs) \<Longrightarrow> np_get xs i = Inr (xs ! nat i)"
  by (simp add: np_get_def np_index_def)

lemma np_set2_ok:
  "0 \<le> j \<Longrightarrow> j < int (length a) \<Longrightarrow> 0 \<le> i \<Longrightarrow> i < int (length (a ! nat j)) \<Longrightarrow>
   np_set2 a j i v = Inr (px_set a j i v)"
  by (simp add: np_set2_def np_index_def px_set_def)

lemma fits_row: "fits x y a \<Longrightarrow> r < length y \<Longrightarrow> length (a ! r) = length x"
  by (simp add: fits_def list_all_length)

lemma fits_px_set: "fits x y a \<Longrightarrow> fits x y (px_set a j i v)"
proof (cases "nat j < length a")
  case True
  assume "fits x y a"
  with True show ?thesis
    by (auto simp: fits_def px_set_def list_all_length nth_list_update)
next
  case False
  assume "fits x y a"
  with False show ?thesis
    by (simp add: px_set_def list_update_beyond)
qed

lemma write_calls_snoc:
  "write_calls f (calls @ [p]) a = px_set (write_calls f calls a) (snd p) (fst p) (f p)"
  by (simp add: write_calls_def)

lemma write_calls_append:
  "write_calls f (cs @ ds) a = write_calls f ds (write_calls f cs a)"
  by (simp add: write_calls_def)

lemma fits_write_calls: "fits x y a \<Longrightarrow> fits x y (write_calls f calls a)"
  by (induction calls rule: rev_induct) (simp_all add: write_calls_snoc fits_px_set write_calls_def)

lemma for_range_invariant_gen:
  assumes "I ds s"
    and "\<And>ds i s. I ds s \<Longrightarrow> i \<in> set is \<Longrightarrow> \<exists>s'. body i s = Inr s' \<and> I (ds @ [i]) s'"
  shows "\<exists>s'. for_range body is s = Inr s' \<and> I (ds @ is) s'"
  using assms
proof (induction "is" arbitrary: ds s)
  case Nil
  then show ?case by simp
next
  case (Cons i rest)
  from Cons.prems(2) [OF Cons.prems(1), of i] obtain s1
    where s1: "body i s = Inr s1" "I (ds @ [i]) s1" by auto
  have "\<exists>s'. for_range body rest s1 = Inr s' \<and> I ((ds @ [i]) @ rest) s'"
    by (rule Cons.IH [OF s1(2)]) (auto intro: Cons.prems(2))
  with s1 show ?case by simp
qed

lemma for_range_invariant:
  assumes "I [] s"
    and "\<And>ds i s. I ds s \<Longrightarrow> i \<in> set is \<Longrightarrow> \<exists>s'. body i s = Inr s' \<and> I (ds @ [i]) s'"
  shows "\<exists>s'. for_range body is s = Inr s' \<and> I is s'"
  using for_range_invariant_gen [of I "[]" s "is" body] assms by simp

lemma scan_call_ok:
  "0 \<le> i \<Longrightarrow> i < int (length x) \<Longrightarrow> 0 \<le> j \<Longrightarrow> j < int (length y) \<Longrightarrow>
   scan_call calc x y i j s = Inr (calc (x ! nat i) (y ! nat j), s\<lparr>sc_calls := sc_calls s @ [(i, j)]\<rparr>)"
  by (simp add: scan_call_def np_get_ok)

lemma length_px_set [simp]: "length (px_set a j i v) = length a"
  by (simp add: px_set_def)

lemma length_px_set_row [simp]: "length (px_set a j i v ! r) = length (a ! r)"
  by (cases "nat j < length a") (simp_all add: px_set_def nth_list_update list_update_beyond)

lemma scan_write_ok:
  "0 \<le> j \<Longrightarrow> j < int (length (sc_pixels s)) \<Longrightarrow> 0 \<le> i \<Longrightarrow> i < int (length (sc_pixels s ! nat j)) \<Longrightarrow>
   scan_write j i c s = Inr (s\<lparr>sc_pixels := px_set (sc_pixels s) j i c\<rparr>)"
  by (simp add: scan_write_def np_set2_ok)


lemma accel_compare_fields [simp]:
  "sc_pixels (accel_compare cols rows c s) = sc_pixels s"
  "sc_calls (accel_compare cols rows c s) = sc_calls s"
  "sc_border (accel_compare cols rows c s) = sc_border s"
  "sc_border_set (accel_compare cols rows c s) = sc_border_set s"
  by (simp_all add: accel_compare_def)

lemma accel_compare_split:
  "sc_split (accel_compare cols rows c s) = (sc_split s \<or> (cols \<ge> 3 \<and> rows \<ge> 3 \<and> sc_border s \<noteq> c))"
  by (auto simp: accel_compare_def)

lemma accel_compare_pixels_update:
  "accel_compare cols rows c (s\<lparr>sc_pixels := p\<rparr>) = (accel_compare cols rows c s)\<lparr>sc_pixels := p\<rparr>"
  by (simp add: accel_compare_def)

lemma visit_fields [simp]:
  "sc_pixels (visit f cols rows p s) = px_set (sc_pixels s) (snd p) (fst p) (f p)"
  "sc_calls (visit f cols rows p s) = sc_calls s @ [p]"
  "sc_border (visit f cols rows p s) = sc_border s"
  "sc_border_set (visit f cols rows p s) = sc_border_set s"
  "sc_split (visit f cols rows p s) = (sc_split s \<or> (cols \<ge> 3 \<and> rows \<ge> 3 \<and> sc_border s \<noteq> f p))"
  by (simp_all add: visit_def accel_compare_split)

lemma scan_inv_visit:
  assumes "scan_inv f cols rows x y pixels calls s"
  shows "scan_inv f cols rows x y pixels (calls @ [p]) (visit f cols rows p s)"
  using assms by (auto simp: scan_inv_def write_calls_snoc fits_px_set)


lemma fits_lengths:
  assumes "fits x y a" "0 \<le> j" "j < int (length y)"
  shows "length a = length y" "length (a ! nat j) = length x"
  using assms by (simp_all add: fits_def list_all_length)

text \<open>call; compare; write, as in the first loop.\<close>

lemma call_compare_write:
  assumes "0 \<le> i" "i < int (length x)" "0 \<le> j" "j < int (length y)" "fits x y (sc_pixels s)"
    and f: "f (i, j) = snd (calc (x ! nat i) (y ! nat j))"
  shows "bind_err (scan_call calc x y i j s) (\<lambda>(r, s).
           bind_err (scan_write j i (snd r) (accel_compare cols rows (snd r) s)) k)
         = k (visit f cols rows (i, j) s)"
proof -
  note l = fits_lengths [OF assms(5) assms(3,4)]
  have w: "scan_write j i c (accel_compare cols rows c (s\<lparr>sc_calls := sc_calls s @ [(i, j)]\<rparr>))
        = Inr ((accel_compare cols rows c (s\<lparr>sc_calls := sc_calls s @ [(i, j)]\<rparr>))
                 \<lparr>sc_pixels := px_set (sc_pixels s) j i c\<rparr>)" for c
    using assms(1-4) l by (subst scan_write_ok) simp_all
  show ?thesis
    using assms(1-4) by (simp add: scan_call_ok w visit_def f)
qed

lemma call_compare_write_last:
  assumes "0 \<le> i" "i < int (length x)" "0 \<le> j" "j < int (length y)" "fits x y (sc_pixels s)"
    and f: "f (i, j) = snd (calc (x ! nat i) (y ! nat j))"
  shows "bind_err (scan_call calc x y i j s) (\<lambda>(r, s).
           scan_write j i (snd r) (accel_compare cols rows (snd r) s))
         = Inr (visit f cols rows (i, j) s)"
proof -
  note l = fits_lengths [OF assms(5) assms(3,4)]
  have w: "scan_write j i c (accel_compare cols rows c (s\<lparr>sc_calls := sc_calls s @ [(i, j)]\<rparr>))
        = Inr ((accel_compare cols rows c (s\<lparr>sc_calls := sc_calls s @ [(i, j)]\<rparr>))
                 \<lparr>sc_pixels := px_set (sc_pixels s) j i c\<rparr>)" for c
    using assms(1-4) l by (subst scan_write_ok) simp_all
  show ?thesis
    using assms(1-4) by (simp add: scan_call_ok w visit_def f)
qed

text \<open>call; write; compare, as in the second loop.\<close>

lemma call_write_compare:
  assumes "0 \<le> i" "i < int (length x)" "0 \<le> j" "j < int (length y)" "fits x y (sc_pixels s)"
    and f: "f (i, j) = snd (calc (x ! nat i) (y ! nat j))"
  shows "bind_err (scan_call calc x y i j s) (\<lambda>(r, s).
           bind_err (scan_write j i (snd r) s) (\<lambda>s. k (accel_compare cols rows (snd r) s)))
         = k (visit f cols rows (i, j) s)"
proof -
  note l = fits_lengths [OF assms(5) assms(3,4)]
  have w: "scan_write j i c (s\<lparr>sc_calls := sc_calls s @ [(i, j)]\<rparr>)
        = Inr (s\<lparr>sc_calls := sc_calls s @ [(i, j)], sc_pixels := px_set (sc_pixels s) j i c\<rparr>)" for c
    using assms(1-4) l by (subst scan_write_ok) simp_all
  show ?thesis
    using assms(1-4)
    by (simp add: scan_call_ok w visit_def f accel_compare_pixels_update)
qed

text \<open>The first call of a scan sets the border colour.\<close>

lemma call_border_write:
  assumes "0 \<le> i" "i < int (length x)" "0 \<le> j" "j < int (length y)" "fits x y (sc_pixels s)"
    and f: "f (i, j) = snd (calc (x ! nat i) (y ! nat j))"
  shows "bind_err (scan_call calc x y i j s) (\<lambda>(r, s).
           bind_err (scan_write j i (snd r) (s\<lparr>sc_border := snd r\<rparr>)) k)
         = k (s\<lparr>sc_calls := sc_calls s @ [(i, j)], sc_border := f (i, j),
                sc_pixels := px_set (sc_pixels s) j i (f (i, j))\<rparr>)"
proof -
  note l = fits_lengths [OF assms(5) assms(3,4)]
  have w: "scan_write j i c (s\<lparr>sc_calls := sc_calls s @ [(i, j)], sc_border := c\<rparr>)
        = Inr (s\<lparr>sc_calls := sc_calls s @ [(i, j)], sc_border := c,
                  sc_pixels := px_set (sc_pixels s) j i c\<rparr>)" for c
    using assms(1-4) l by (subst scan_write_ok) simp_all
  show ?thesis
    using assms(1-4) by (simp add: scan_call_ok w f)
qed

lemma fits_visit: "fits x y (sc_pixels s) \<Longrightarrow> fits x y (sc_pixels (visit f cols rows p s))"
  by (simp add: fits_px_set)

lemma accel_top_bottom_set:
  assumes "0 \<le> i" "i < int (length x)" "0 \<le> snd tl'" "snd tl' < snd br'" "snd br' \<le> int (length y)"
    and "fits x y (sc_pixels s)" "sc_border_set s"
    and f: "\<And>i j. f (i, j) = snd (calc (x ! nat i) (y ! nat j))"
  shows "accel_top_bottom calc tl' br' x y i s =
           Inr (visit f (fst br' - fst tl') (snd br' - snd tl') (i, snd br' - 1)
                  (visit f (fst br' - fst tl') (snd br' - snd tl') (i, snd tl') s))"
proof -
  have j: "snd tl' < int (length y)" "0 \<le> snd br' - 1" "snd br' - 1 < int (length y)"
    using assms(3-5) by simp_all
  show ?thesis
    unfolding accel_top_bottom_def Let_def
    apply (simp only: assms(7) if_True)
    apply (subst call_compare_write [where f = f and calc = calc, OF assms(1,2,3) j(1) assms(6) f])
    apply (subst call_compare_write_last [where f = f and calc = calc, OF assms(1,2) j(2,3) fits_visit [OF assms(6)] f])
    apply (rule refl)
    done
qed

lemma accel_top_bottom_unset:
  assumes "0 \<le> i" "i < int (length x)" "0 \<le> snd tl'" "snd tl' < snd br'" "snd br' \<le> int (length y)"
    and "fits x y (sc_pixels s)" "\<not> sc_border_set s"
    and f: "\<And>i j. f (i, j) = snd (calc (x ! nat i) (y ! nat j))"
  shows "accel_top_bottom calc tl' br' x y i s =
           Inr ((visit f (fst br' - fst tl') (snd br' - snd tl') (i, snd br' - 1)
                  (s\<lparr>sc_calls := sc_calls s @ [(i, snd tl')], sc_border := f (i, snd tl'),
                     sc_pixels := px_set (sc_pixels s) (snd tl') i (f (i, snd tl'))\<rparr>))
                 \<lparr>sc_border_set := True\<rparr>)"
proof -
  have j: "snd tl' < int (length y)" "0 \<le> snd br' - 1" "snd br' - 1 < int (length y)"
    using assms(3-5) by simp_all
  have fit1: "fits x y (sc_pixels (s\<lparr>sc_calls := sc_calls s @ [(i, snd tl')], sc_border := f (i, snd tl'),
                     sc_pixels := px_set (sc_pixels s) (snd tl') i (f (i, snd tl'))\<rparr>))"
    using assms(6) by (simp add: fits_px_set)
  show ?thesis
    unfolding accel_top_bottom_def Let_def
    apply (simp add: assms(7))
    apply (subst call_border_write [where f = f and calc = calc, OF assms(1,2,3) j(1) assms(6) f])
    apply (subst call_compare_write [where f = f and calc = calc, OF assms(1,2) j(2,3) fit1 f])
    apply (rule refl)
    done
qed

lemma accel_left_right_eval:
  assumes "0 \<le> j" "j < int (length y)" "0 \<le> fst tl'" "fst tl' < fst br'" "fst br' \<le> int (length x)"
    and "fits x y (sc_pixels s)"
    and f: "\<And>i j. f (i, j) = snd (calc (x ! nat i) (y ! nat j))"
  shows "accel_left_right calc tl' br' x y j s =
           Inr (visit f (fst br' - fst tl') (snd br' - snd tl') (fst br' - 1, j)
                  (visit f (fst br' - fst tl') (snd br' - snd tl') (fst tl', j) s))"
proof -
  have i: "fst tl' < int (length x)" "0 \<le> fst br' - 1" "fst br' - 1 < int (length x)"
    using assms(3-5) by simp_all
  show ?thesis
    unfolding accel_left_right_def Let_def
    apply (subst call_write_compare [where f = f and calc = calc, OF assms(3) i(1) assms(1,2) assms(6) f])
    apply (subst call_write_compare [where f = f and calc = calc, OF i(2,3) assms(1,2) fits_visit [OF assms(6)] f])
    apply (rule refl)
    done
qed


lemma scan_inv_border_set_update [simp]:
  "scan_inv f cols rows x y pixels calls (s\<lparr>sc_border_set := b\<rparr>) = scan_inv f cols rows x y pixels calls s"
  by (simp add: scan_inv_def)

lemma scan_inv_first:
  assumes "scan_inv f cols rows x y pixels [] s"
  shows "scan_inv f cols rows x y pixels [p]
           (s\<lparr>sc_calls := sc_calls s @ [p], sc_border := f p,
              sc_pixels := px_set (sc_pixels s) (snd p) (fst p) (f p)\<rparr>)"
proof -
  from assms have a: "sc_calls s = []" "sc_pixels s = pixels" "fits x y pixels" "\<not> sc_split s"
    by (auto simp: scan_inv_def write_calls_def)
  from a(3) have "fits x y (px_set pixels (snd p) (fst p) (f p))"
    by (rule fits_px_set)
  with a show ?thesis
    by (simp add: scan_inv_def write_calls_def)
qed

lemma scan_inv_fits: "scan_inv f cols rows x y pixels calls s \<Longrightarrow> fits x y (sc_pixels s)"
  unfolding scan_inv_def by blast

lemma accel_top_bottom_loop:
  assumes b: "0 \<le> fst tl'" "fst br' \<le> int (length x)" "0 \<le> snd tl'" "snd tl' < snd br'"
             "snd br' \<le> int (length y)"
    and s0: "scan_inv f (fst br' - fst tl') (snd br' - snd tl') x y pixels [] s0" "\<not> sc_border_set s0"
    and f: "\<And>i j. f (i, j) = snd (calc (x ! nat i) (y ! nat j))"
  shows "\<exists>s. for_range (accel_top_bottom calc tl' br' x y) [fst tl'..fst br' - 1] s0 = Inr s
           \<and> scan_inv f (fst br' - fst tl') (snd br' - snd tl') x y pixels
                (concat (map (\<lambda>i. [(i, snd tl'), (i, snd br' - 1)]) [fst tl'..fst br' - 1])) s
           \<and> (fst tl' < fst br' \<longrightarrow> sc_border s = f (fst tl', snd tl'))"
proof -
  let ?c = "fst br' - fst tl'" and ?r = "snd br' - snd tl'"
  let ?I = "\<lambda>ds s. scan_inv f ?c ?r x y pixels
                (concat (map (\<lambda>i. [(i, snd tl'), (i, snd br' - 1)]) ds)) s
              \<and> sc_border_set s = (ds \<noteq> [])
              \<and> (ds \<noteq> [] \<longrightarrow> sc_border s = f (hd ds, snd tl'))"
  have "\<exists>s. for_range (accel_top_bottom calc tl' br' x y) [fst tl'..fst br' - 1] s0 = Inr s
           \<and> ?I [fst tl'..fst br' - 1] s"
  proof (rule for_range_invariant [where I = ?I])
    show "?I [] s0" using s0 by simp
  next
    fix ds i s
    assume inv: "?I ds s" and i: "i \<in> set [fst tl'..fst br' - 1]"
    from i b have ib: "0 \<le> i" "i < int (length x)" by auto
    from inv have si: "scan_inv f ?c ?r x y pixels
                (concat (map (\<lambda>i. [(i, snd tl'), (i, snd br' - 1)]) ds)) s" by blast
    note fit = scan_inv_fits [OF si]
    show "\<exists>s'. accel_top_bottom calc tl' br' x y i s = Inr s' \<and> ?I (ds @ [i]) s'"
    proof (cases "ds = []")
      case True
      with inv have ns: "\<not> sc_border_set s" by simp
      from si True have "scan_inv f ?c ?r x y pixels [] s" by simp
      from scan_inv_visit [OF scan_inv_first [OF this, of "(i, snd tl')"], of "(i, snd br' - 1)"]
      have "scan_inv f ?c ?r x y pixels [(i, snd tl'), (i, snd br' - 1)]
              (visit f ?c ?r (i, snd br' - 1)
                 (s\<lparr>sc_calls := sc_calls s @ [(i, snd tl')], sc_border := f (i, snd tl'),
                    sc_pixels := px_set (sc_pixels s) (snd tl') i (f (i, snd tl'))\<rparr>))"
        by simp
      with True show ?thesis
        by (simp add: accel_top_bottom_unset [where f = f and calc = calc, OF ib b(3,4,5) fit ns f])
    next
      case False
      with inv have st: "sc_border_set s" "sc_border s = f (hd ds, snd tl')" by simp_all
      from scan_inv_visit [OF scan_inv_visit [OF si, of "(i, snd tl')"], of "(i, snd br' - 1)"]
      have "scan_inv f ?c ?r x y pixels
              (concat (map (\<lambda>i. [(i, snd tl'), (i, snd br' - 1)]) (ds @ [i])))
              (visit f ?c ?r (i, snd br' - 1) (visit f ?c ?r (i, snd tl') s))"
        by simp
      with False st show ?thesis
        by (simp add: accel_top_bottom_set [where f = f and calc = calc, OF ib b(3,4,5) fit st(1) f])
    qed
  qed
  then obtain s where s: "for_range (accel_top_bottom calc tl' br' x y) [fst tl'..fst br' - 1] s0 = Inr s"
     "?I [fst tl'..fst br' - 1] s" by blast
  have "fst tl' < fst br' \<Longrightarrow> [fst tl'..fst br' - 1] \<noteq> [] \<and> hd [fst tl'..fst br' - 1] = fst tl'"
    by (simp add: upto_rec1)
  with s show ?thesis by auto
qed

lemma accel_left_right_loop:
  assumes b: "0 \<le> fst tl'" "fst tl' < fst br'" "fst br' \<le> int (length x)" "0 \<le> snd tl'"
             "snd br' \<le> int (length y)"
    and s0: "scan_inv f (fst br' - fst tl') (snd br' - snd tl') x y pixels calls0 s0"
    and f: "\<And>i j. f (i, j) = snd (calc (x ! nat i) (y ! nat j))"
  shows "\<exists>s. for_range (accel_left_right calc tl' br' x y) [snd tl'..snd br' - 1] s0 = Inr s
           \<and> scan_inv f (fst br' - fst tl') (snd br' - snd tl') x y pixels
                (calls0 @ concat (map (\<lambda>j. [(fst tl', j), (fst br' - 1, j)]) [snd tl'..snd br' - 1])) s
           \<and> sc_border s = sc_border s0"
proof -
  let ?c = "fst br' - fst tl'" and ?r = "snd br' - snd tl'"
  let ?I = "\<lambda>ds s. scan_inv f ?c ?r x y pixels
                (calls0 @ concat (map (\<lambda>j. [(fst tl', j), (fst br' - 1, j)]) ds)) s
              \<and> sc_border s = sc_border s0"
  show ?thesis
  proof (rule for_range_invariant [where I = ?I])
    show "?I [] s0" using s0 by simp
  next
    fix ds j s
    assume inv: "?I ds s" and j: "j \<in> set [snd tl'..snd br' - 1]"
    from j b have jb: "0 \<le> j" "j < int (length y)" by auto
    from inv have si: "scan_inv f ?c ?r x y pixels
                (calls0 @ concat (map (\<lambda>j. [(fst tl', j), (fst br' - 1, j)]) ds)) s" by blast
    note fit = scan_inv_fits [OF si]
    from scan_inv_visit [OF scan_inv_visit [OF si, of "(fst tl', j)"], of "(fst br' - 1, j)"]
    have "scan_inv f ?c ?r x y pixels
            (calls0 @ concat (map (\<lambda>j. [(fst tl', j), (fst br' - 1, j)]) (ds @ [j])))
            (visit f ?c ?r (fst br' - 1, j) (visit f ?c ?r (fst tl', j) s))"
      by simp
    with inv show "\<exists>s'. accel_left_right calc tl' br' x y j s = Inr s' \<and> ?I (ds @ [j]) s'"
      by (simp add: accel_left_right_eval [where f = f and calc = calc, OF jb b(1,2,3) fit f])
  qed
qed

lemma accel_scan_char:
  assumes "in_buffer tl' br' pixels x y" "fst tl' < fst br'" "snd tl' < snd br'"
    and "\<not> (snd br' - snd tl' = 1 \<and> fst br' - fst tl' = 1)"
  shows "Accelerated_calculate_quadtree tl' br' pixels x y mi er smooth cs pc =
     (let f = accel_color x y mi er smooth cs pc;
          split = (fst br' - fst tl' \<ge> 3 \<and> snd br' - snd tl' \<ge> 3 \<and>
                   (\<exists>p \<in> set (border_calls tl' br'). f p \<noteq> f tl'))
      in case f tl' of (b0, b1, b2) \<Rightarrow>
           Inr ([if split then 1 else 0, b0, b1, b2],
                write_calls f (border_calls tl' br') pixels, border_calls tl' br'))"
proof -
  let ?f = "accel_color x y mi er smooth cs pc"
  let ?calc = "\<lambda>xv yv. Accelerated_calculate xv yv mi er smooth cs pc"
  let ?s0 = "\<lparr>sc_split = False, sc_border_set = False, sc_border = (- 1, - 1, - 1),
               sc_pixels = pixels, sc_calls = []\<rparr>"
  let ?c = "fst br' - fst tl'" and ?r = "snd br' - snd tl'"
  have f: "\<And>i j. ?f (i, j) = snd (?calc (x ! nat i) (y ! nat j))"
    by (simp add: accel_color_def)
  from assms(1) have b: "0 \<le> fst tl'" "fst br' \<le> int (length x)" "0 \<le> snd tl'"
      "snd br' \<le> int (length y)" and fit: "fits x y pixels"
    by (simp_all add: in_buffer_def fits_def)
  have s0: "scan_inv ?f ?c ?r x y pixels [] ?s0" "\<not> sc_border_set ?s0"
    using fit by (simp_all add: scan_inv_def write_calls_def)
  from accel_top_bottom_loop [where f = ?f and calc = ?calc, OF b(1,2,3) assms(3) b(4) s0 f]
  obtain s1 where s1: "for_range (accel_top_bottom ?calc tl' br' x y) [fst tl'..fst br' - 1] ?s0 = Inr s1"
     "scan_inv ?f ?c ?r x y pixels
        (concat (map (\<lambda>i. [(i, snd tl'), (i, snd br' - 1)]) [fst tl'..fst br' - 1])) s1"
     "sc_border s1 = ?f (fst tl', snd tl')"
    using assms(2) by blast
  from accel_left_right_loop [where f = ?f and calc = ?calc, OF b(1) assms(2) b(2,3,4) s1(2) f]
  obtain s2 where s2: "for_range (accel_left_right ?calc tl' br' x y) [snd tl'..snd br' - 1] s1 = Inr s2"
     "scan_inv ?f ?c ?r x y pixels (border_calls tl' br') s2" "sc_border s2 = sc_border s1"
    unfolding border_calls_def by blast
  from s2(2) have r: "sc_calls s2 = border_calls tl' br'"
      "sc_pixels s2 = write_calls ?f (border_calls tl' br') pixels"
      "sc_split s2 = (?c \<ge> 3 \<and> ?r \<ge> 3 \<and> (\<exists>p \<in> set (border_calls tl' br'). ?f p \<noteq> sc_border s2))"
    unfolding scan_inv_def by blast+
  have bd: "sc_border s2 = ?f tl'"
    using s2(3) s1(3) by simp
  show ?thesis
    unfolding Accelerated_calculate_quadtree_def Let_def
    by (subst if_not_P [OF assms(4)]) (simp add: s1(1) s2(1) r bd split: prod.splits)
qed


lemma set_border_calls:
  assumes "fst tl' < fst br'" "snd tl' < snd br'"
  shows "set (border_calls tl' br') = border_cells \<lparr>top_left = tl', bottom_right = br'\<rparr>"
  using assms by (auto simp: border_calls_def border_cells_def cells_def)

lemma length_concat_pairs: "length (concat (map (\<lambda>i. [g i, h i]) xs)) = 2 * length xs"
  by (induction xs) simp_all

lemma length_border_calls:
  assumes "fst tl' \<le> fst br'" "snd tl' \<le> snd br'"
  shows "int (length (border_calls tl' br')) = 2 * (fst br' - fst tl') + 2 * (snd br' - snd tl')"
  using assms by (simp add: border_calls_def length_concat_pairs)

lemma count_list_concat_pairs:
  "count_list (concat (map (\<lambda>i. [g i, h i]) xs)) p =
     length (filter (\<lambda>i. g i = p) xs) + length (filter (\<lambda>i. h i = p) xs)"
  by (induction xs) simp_all

lemma length_filter_eq_distinct:
  "distinct xs \<Longrightarrow> length (filter (\<lambda>i. i = k) xs) = (if k \<in> set xs then 1 else 0)"
  by (induction xs) auto

lemma filter_eq_upto:
  "length (filter (\<lambda>i. i = (k::int)) [a..b]) = (if a \<le> k \<and> k \<le> b then 1 else 0)"
  using length_filter_eq_distinct [of "[a..b]" k] by simp

lemma filter_eq_upto':
  "length (filter ((=) (k::int)) [a..b]) = (if a \<le> k \<and> k \<le> b then 1 else 0)"
proof -
  have "filter ((=) k) [a..b] = filter (\<lambda>i. i = k) [a..b]"
    by (rule filter_cong) auto
  then show ?thesis
    by (simp only: filter_eq_upto)
qed

text \<open>How often a pixel is evaluated by one scan: once for each edge it lies on.\<close>

lemma count_border_calls:
  assumes "fst tl' \<le> i" "i < fst br'" "snd tl' \<le> j" "j < snd br'"
  shows "count_list (border_calls tl' br') (i, j) =
           (if j = snd tl' then 1 else 0) + (if j = snd br' - 1 then 1 else 0)
         + (if i = fst tl' then 1 else 0) + (if i = fst br' - 1 then 1 else 0)"
proof -
  have a: "length (filter (\<lambda>k. (k, c) = (i, j)) [fst tl'..fst br' - 1]) = (if j = c then 1 else 0)" for c
    using assms by (cases "c = j") (simp_all add: filter_eq_upto filter_eq_upto')
  have b: "length (filter (\<lambda>k. (c, k) = (i, j)) [snd tl'..snd br' - 1]) = (if i = c then 1 else 0)" for c
    using assms by (cases "c = i") (simp_all add: filter_eq_upto filter_eq_upto')
  show ?thesis
    unfolding border_calls_def count_list_append count_list_concat_pairs a b
    by simp
qed

lemma sqrt_quarter: "sqrt (1 / 4) = 1 / 2"
  by (rule real_sqrt_unique) (simp_all add: power2_eq_square)

lemma gray_in: "Accelerated_grayscale 4 4 d x y 2 False = (255, 255, 255)"
  by (simp add: Accelerated_grayscale_def)

lemma gray_out: "Accelerated_grayscale 4 1 d x y 2 False = (127, 127, 127)"
  by (simp add: Accelerated_grayscale_def sqrt_quarter)

lemma ngray_in: "Normal_grayscale 4 4 d f 2 False = (255, 255, 255)"
  by (simp add: Normal_grayscale_def np_round_def frac_def Let_def)

lemma ngray_out: "Normal_grayscale 4 1 d f 2 False = (128, 128, 128)"
  by (simp add: Normal_grayscale_def np_round_def sqrt_quarter frac_def Let_def)

lemma px_set_nth:
  assumes "0 \<le> j'" "0 \<le> i'" "0 \<le> j" "0 \<le> i" "j < int (length a)" "i < int (length (a ! nat j))"
  shows "px_set a j' i' v ! nat j ! nat i = (if j' = j \<and> i' = i then v else a ! nat j ! nat i)"
proof (cases "j' = j")
  case True
  with assms show ?thesis
    by (cases "i' = i") (simp_all add: px_set_def nat_eq_iff)
next
  case False
  with assms have "nat j' \<noteq> nat j" by simp
  then show ?thesis
    using False by (simp add: px_set_def)
qed

lemma write_calls_nth:
  assumes "fits x y a" "0 \<le> i" "i < int (length x)" "0 \<le> j" "j < int (length y)"
    and "\<forall>p \<in> set calls. 0 \<le> fst p \<and> 0 \<le> snd p"
  shows "write_calls f calls a ! nat j ! nat i = (if (i, j) \<in> set calls then f (i, j) else a ! nat j ! nat i)"
  using assms(6)
proof (induction calls rule: rev_induct)
  case Nil
  then show ?case by (simp add: write_calls_def)
next
  case (snoc p calls)
  let ?b = "write_calls f calls a"
  have fb: "fits x y ?b" using assms(1) by (rule fits_write_calls)
  have l: "j < int (length ?b)" "i < int (length (?b ! nat j))"
    using fits_lengths [OF fb assms(4,5)] assms(3,5) by simp_all
  from snoc.prems have p: "0 \<le> fst p" "0 \<le> snd p" by simp_all
  from snoc have ih: "?b ! nat j ! nat i = (if (i, j) \<in> set calls then f (i, j) else a ! nat j ! nat i)"
    by simp
  show ?case
    unfolding write_calls_snoc px_set_nth [OF p(2) p(1) assms(4) assms(2) l] ih
    by (cases p) auto
qed

lemma border_calls_nonneg:
  assumes "0 \<le> fst tl'" "0 \<le> snd tl'" "snd tl' < snd br'" "fst tl' < fst br'"
  shows "\<forall>p \<in> set (border_calls tl' br'). 0 \<le> fst p \<and> 0 \<le> snd p"
  using assms by (auto simp: border_calls_def)


lemma accel_scan_single:
  assumes "in_buffer tl' br' pixels x y" "snd br' - snd tl' = 1" "fst br' - fst tl' = 1"
  shows "Accelerated_calculate_quadtree tl' br' pixels x y mi er smooth cs pc =
     (case accel_color x y mi er smooth cs pc tl' of (c0, c1, c2) \<Rightarrow>
        Inr ([0, c0, c1, c2], pixels, [tl']))"
proof -
  from assms have b: "0 \<le> fst tl'" "fst tl' < int (length x)" "0 \<le> snd tl'" "snd tl' < int (length y)"
    by (simp_all add: in_buffer_def)
  show ?thesis
    unfolding Accelerated_calculate_quadtree_def Let_def
    using assms(2,3) by (simp add: scan_call_ok [OF b] accel_color_def split: prod.splits)
qed


lemma nscan_call_ok:
  "0 \<le> i \<Longrightarrow> i < int (length x) \<Longrightarrow> 0 \<le> j \<Longrightarrow> j < int (length y) \<Longrightarrow>
   nscan_call x y mi er sm cs pc i j s =
     (case Normal_calculate (x ! nat i) (y ! nat j) mi er sm cs pc (ns_memo s) of
        (r, m) \<Rightarrow> Inr (fst r, s\<lparr>ns_memo := m, ns_calls := ns_calls s @ [(i, j)]\<rparr>))"
  by (simp add: nscan_call_def np_get_ok)

lemma nscan_write_ok:
  "0 \<le> j \<Longrightarrow> j < int (length (ns_pixels s)) \<Longrightarrow> 0 \<le> i \<Longrightarrow> i < int (length (ns_pixels s ! nat j)) \<Longrightarrow>
   nscan_write j i c s = Inr (s\<lparr>ns_pixels := px_set (ns_pixels s) j i c\<rparr>)"
  by (simp add: nscan_write_def np_set2_ok)

lemma normal_compare_fields [simp]:
  "ns_pixels (normal_compare c s) = ns_pixels s"
  "ns_calls (normal_compare c s) = ns_calls s"
  "ns_border (normal_compare c s) = ns_border s"
  "ns_memo (normal_compare c s) = ns_memo s"
  by (simp_all add: normal_compare_def)

text \<open>A call followed by a write succeeds inside the arrays and keeps the shape.\<close>

lemma ncall_write:
  assumes "0 \<le> i" "i < int (length x)" "0 \<le> j" "j < int (length y)" "fits x y (ns_pixels s)"
    and k: "\<And>c s'. fits x y (ns_pixels s') \<Longrightarrow> \<exists>t. k c s' = Inr t \<and> fits x y (ns_pixels t)"
    and g: "\<And>c s'. ns_pixels (g c s') = ns_pixels s'"
  shows "\<exists>t. bind_err (nscan_call x y mi er sm cs pc i j s) (\<lambda>(c, s).
              bind_err (nscan_write j i c (g c s)) (k c)) = Inr t \<and> fits x y (ns_pixels t)"
proof -
  obtain r m where c: "Normal_calculate (x ! nat i) (y ! nat j) mi er sm cs pc (ns_memo s) = (r, m)"
    by (cases "Normal_calculate (x ! nat i) (y ! nat j) mi er sm cs pc (ns_memo s)") auto
  let ?s1 = "g (fst r) (s\<lparr>ns_memo := m, ns_calls := ns_calls s @ [(i, j)]\<rparr>)"
  have p: "ns_pixels ?s1 = ns_pixels s" by (simp add: g)
  note l = fits_lengths [OF assms(5) assms(3,4)]
  have w: "nscan_write j i (fst r) ?s1 = Inr (?s1\<lparr>ns_pixels := px_set (ns_pixels s) j i (fst r)\<rparr>)"
    using assms(1-4) l by (subst nscan_write_ok) (simp_all add: p)
  have "fits x y (ns_pixels (?s1\<lparr>ns_pixels := px_set (ns_pixels s) j i (fst r)\<rparr>))"
    using assms(5) by (simp add: fits_px_set)
  from k [OF this, of "fst r"] show ?thesis
    by (simp add: nscan_call_ok [OF assms(1-4)] c w)
qed


lemma ncall_write_last:
  assumes "0 \<le> i" "i < int (length x)" "0 \<le> j" "j < int (length y)" "fits x y (ns_pixels s)"
    and g: "\<And>c s'. ns_pixels (g c s') = ns_pixels s'"
  shows "\<exists>t. bind_err (nscan_call x y mi er sm cs pc i j s) (\<lambda>(c, s).
              nscan_write j i c (g c s)) = Inr t \<and> fits x y (ns_pixels t)"
proof -
  have "\<exists>t. bind_err (nscan_call x y mi er sm cs pc i j s) (\<lambda>(c, s).
              bind_err (nscan_write j i c (g c s)) ((\<lambda>c. Inr) c)) = Inr t \<and> fits x y (ns_pixels t)"
    by (rule ncall_write [OF assms(1-5)]) (auto simp: g)
  moreover have "bind_err m Inr = m" for m :: "error + nscan"
    by (cases m) simp_all
  ultimately show ?thesis by simp
qed

lemma normal_top_bottom_ok:
  assumes "0 \<le> i" "i < int (length x)" "0 \<le> snd (top_left q)" "snd (top_left q) < snd (bottom_right q)"
    "snd (bottom_right q) \<le> int (length y)" "fits x y (ns_pixels s)"
  shows "\<exists>t. normal_top_bottom q x y mi er sm cs pc i s = Inr t \<and> fits x y (ns_pixels t)"
proof -
  have j: "snd (top_left q) < int (length y)" "0 \<le> snd (bottom_right q) - 1"
      "snd (bottom_right q) - 1 < int (length y)"
    using assms(3-5) by simp_all
  show ?thesis
  proof (cases "ns_border s \<noteq> None")
    case True
    have "\<exists>t. bind_err (nscan_call x y mi er sm cs pc i (snd (top_left q)) s) (\<lambda>(c, s).
              bind_err (nscan_write (snd (top_left q)) i c (normal_compare c s))
                ((\<lambda>c s. bind_err (nscan_call x y mi er sm cs pc i (snd (bottom_right q) - 1) s)
                   (\<lambda>(c, s). nscan_write (snd (bottom_right q) - 1) i c (normal_compare c s))) c))
            = Inr t \<and> fits x y (ns_pixels t)"
      by (rule ncall_write [OF assms(1,2,3) j(1) assms(6)])
         (rule ncall_write_last [OF assms(1,2) j(2,3)], simp_all)
    with True show ?thesis
      by (simp add: normal_top_bottom_def Let_def)
  next
    case False
    have "\<exists>t. bind_err (nscan_call x y mi er sm cs pc i (snd (top_left q)) s) (\<lambda>(c, s).
              bind_err (nscan_write (snd (top_left q)) i c ((\<lambda>c s. s) c s))
                ((\<lambda>c s. bind_err (nscan_call x y mi er sm cs pc i (snd (bottom_right q) - 1)
                                    (s\<lparr>ns_border := Some c\<rparr>))
                   (\<lambda>(c, s). nscan_write (snd (bottom_right q) - 1) i c
                      ((\<lambda>c s. s\<lparr>ns_split := (ns_split s \<or> differs (ns_border s) c)\<rparr>) c s))) c))
            = Inr t \<and> fits x y (ns_pixels t)"
      by (rule ncall_write [OF assms(1,2,3) j(1) assms(6)])
         (rule ncall_write_last [OF assms(1,2) j(2,3)], simp_all)
    with False show ?thesis
      by (simp add: normal_top_bottom_def Let_def)
  qed
qed

lemma normal_left_right_ok:
  assumes "0 \<le> j" "j < int (length y)" "0 \<le> fst (top_left q)" "fst (top_left q) < fst (bottom_right q)"
    "fst (bottom_right q) \<le> int (length x)" "fits x y (ns_pixels s)"
  shows "\<exists>t. normal_left_right q x y mi er sm cs pc j s = Inr t \<and> fits x y (ns_pixels t)"
proof -
  have i: "fst (top_left q) < int (length x)" "0 \<le> fst (bottom_right q) - 1"
      "fst (bottom_right q) - 1 < int (length x)"
    using assms(3-5) by simp_all
  have "\<exists>t. bind_err (nscan_call x y mi er sm cs pc (fst (top_left q)) j s) (\<lambda>(c, s).
            bind_err (nscan_write j (fst (top_left q)) c ((\<lambda>c s. s) c s))
              ((\<lambda>c s. bind_err (nscan_call x y mi er sm cs pc (fst (bottom_right q) - 1) j
                                  (normal_compare c s))
                 (\<lambda>(c, s). bind_err (nscan_write j (fst (bottom_right q) - 1) c ((\<lambda>c s. s) c s))
                    ((\<lambda>c s. Inr (normal_compare c s)) c))) c))
          = Inr t \<and> fits x y (ns_pixels t)"
    by (rule ncall_write [OF assms(3) i(1) assms(1,2) assms(6)])
       (rule ncall_write [OF i(2,3) assms(1,2)], simp_all)
  then show ?thesis
    by (simp add: normal_left_right_def Let_def)
qed

lemma normal_scan_ok:
  assumes "in_buffer (top_left q) (bottom_right q) pixels x y"
    "fst (top_left q) < fst (bottom_right q)" "snd (top_left q) < snd (bottom_right q)"
  shows "\<exists>sp b px m calls.
      Normal_calculate_quadtree q pixels x y mi er sm cs pc memo = Inr ((sp, b), px, m, calls)
    \<and> (sp \<longrightarrow> QuadTree_cols q > 3 \<and> QuadTree_rows q > 3)"
proof -
  from assms(1) have b: "0 \<le> fst (top_left q)" "fst (bottom_right q) \<le> int (length x)"
      "0 \<le> snd (top_left q)" "snd (bottom_right q) \<le> int (length y)" and fit: "fits x y pixels"
    by (simp_all add: in_buffer_def fits_def)
  let ?s0 = "\<lparr>ns_split = False, ns_border = None, ns_pixels = pixels, ns_memo = memo, ns_calls = []\<rparr>"
  show ?thesis
  proof (cases "QuadTree_rows q = 1 \<and> QuadTree_cols q = 1")
    case True
    have "0 \<le> fst (top_left q)" "fst (top_left q) < int (length x)" "0 \<le> snd (top_left q)"
        "snd (top_left q) < int (length y)"
      using b assms(2,3) by simp_all
    from nscan_call_ok [OF this] True show ?thesis
      by (auto simp: Normal_calculate_quadtree_def Let_def split: prod.splits)
  next
    case False
    have "\<exists>s. for_range (normal_top_bottom q x y mi er sm cs pc)
                 [fst (top_left q)..fst (bottom_right q) - 1] ?s0 = Inr s \<and> fits x y (ns_pixels s)"
    proof (rule for_range_invariant [where I = "\<lambda>ds s. fits x y (ns_pixels s)"])
      show "fits x y (ns_pixels ?s0)" using fit by simp
    next
      fix ds :: "int list" and i and s :: nscan
      assume "fits x y (ns_pixels s)" "i \<in> set [fst (top_left q)..fst (bottom_right q) - 1]"
      then show "\<exists>s'. normal_top_bottom q x y mi er sm cs pc i s = Inr s' \<and> fits x y (ns_pixels s')"
        using b assms(3) by (intro normal_top_bottom_ok) auto
    qed
    then obtain s1 where s1: "for_range (normal_top_bottom q x y mi er sm cs pc)
                 [fst (top_left q)..fst (bottom_right q) - 1] ?s0 = Inr s1" "fits x y (ns_pixels s1)"
      by blast
    have "\<exists>s. for_range (normal_left_right q x y mi er sm cs pc)
                 [snd (top_left q)..snd (bottom_right q) - 1] s1 = Inr s \<and> fits x y (ns_pixels s)"
    proof (rule for_range_invariant [where I = "\<lambda>ds s. fits x y (ns_pixels s)"])
      show "fits x y (ns_pixels s1)" by (rule s1)
    next
      fix ds :: "int list" and j and s :: nscan
      assume "fits x y (ns_pixels s)" "j \<in> set [snd (top_left q)..snd (bottom_right q) - 1]"
      then show "\<exists>s'. normal_left_right q x y mi er sm cs pc j s = Inr s' \<and> fits x y (ns_pixels s')"
        using b assms(2) by (intro normal_left_right_ok) auto
    qed
    then obtain s2 where s2: "for_range (normal_left_right q x y mi er sm cs pc)
                 [snd (top_left q)..snd (bottom_right q) - 1] s1 = Inr s2"
      by blast
    show ?thesis
      unfolding Normal_calculate_quadtree_def Let_def
      by (subst if_not_P [OF False]) (simp add: s1(1) s2)
  qed
qed

lemma normal_split_needs_4:
  assumes "Normal_calculate_quadtree q pixels x y mi er sm cs pc memo = Inr ((True, b), rest)"
  shows "QuadTree_cols q > 3 \<and> QuadTree_rows q > 3"
proof (cases "QuadTree_rows q = 1 \<and> QuadTree_cols q = 1")
  case True
  with assms show ?thesis
    by (auto simp: Normal_calculate_quadtree_def Let_def bind_err_def split: sum.splits prod.splits)
next
  case False
  from assms show ?thesis
    unfolding Normal_calculate_quadtree_def Let_def if_not_P [OF False]
    by (auto simp: bind_err_def split: sum.splits)
qed

lemma accel_loop_escape_first:
  assumes "0 < n" "ers \<le> x0 * x0 + y0 * y0"
  shows "accel_loop x0 y0 mi ers pc n orbit_init =
     \<lparr>o_x = x0, o_y = y0, o_x2 = x0 * x0, o_y2 = y0 * y0, o_w = (x0 + y0) * (x0 + y0),
      o_x_old = 0, o_y_old = 0, o_period = 0, o_dx = 1, o_dy = 0, o_iterations = 1, o_steps = 1\<rparr>"
proof -
  from assms(1) obtain k where "n = Suc k" by (cases n) auto
  with assms(2) show ?thesis
    by (simp add: orbit_init_def orbit_step_def Let_def)
qed

lemma accel_gray_out:
  assumes "\<not> in_main_body x0 y0" "4 \<le> x0 * x0 + y0 * y0"
  shows "Accelerated_calculate x0 y0 4 2 False Accelerated_grayscale True = (0, (127, 127, 127))"
  using assms(1) gray_out
  by (simp add: Accelerated_calculate_def evaluate_accel_def Let_def accel_loop_escape_first assms(2))

lemma accel_gray_in:
  assumes "in_main_body x0 y0"
  shows "Accelerated_calculate x0 y0 4 2 False Accelerated_grayscale True = (1, (255, 255, 255))"
  using assms gray_in by (simp add: Accelerated_calculate_def evaluate_accel_def Let_def)

lemma normal_loop_escape_first:
  assumes "0 < mi" "0 \<le> ers" "ers < x0 * x0 + y0 * y0"
  shows "normal_loop x0 y0 mi ers True orbit_init =
     \<lparr>o_x = x0, o_y = y0, o_x2 = x0 * x0, o_y2 = y0 * y0, o_w = (x0 + y0) * (x0 + y0),
      o_x_old = 0, o_y_old = 0, o_period = 1, o_dx = 1, o_dy = 0, o_iterations = 1, o_steps = 1\<rparr>"
proof -
  from assms(2,3) have nz: "x0 \<noteq> 0 \<or> y0 \<noteq> 0" by auto
  show ?thesis
    using assms nz
    apply (subst normal_loop.simps)
    apply (simp add: orbit_init_def orbit_step_def Let_def)
    apply (subst normal_loop.simps)
    apply simp
    done
qed

lemma normal_gray_out:
  assumes "\<not> in_main_body x0 y0" "4 < x0 * x0 + y0 * y0"
  shows "Normal_calculate x0 y0 4 2 False Normal_grayscale True None = (((128, 128, 128), False), None)"
  using assms(1) ngray_out
  by (simp add: Normal_calculate_def evaluate_normal_def Let_def normal_loop_escape_first assms(2))

lemma normal_gray_in:
  assumes "in_main_body x0 y0"
  shows "Normal_calculate x0 y0 4 2 False Normal_grayscale True None = (((255, 255, 255), True), None)"
  using assms ngray_in by (simp add: Normal_calculate_def evaluate_normal_def Let_def)

lemma main_body_samples:
  "in_main_body 0 0" "\<not> in_main_body 3 0"
  by (simp_all add: in_main_body_def Let_def)

lemma in_buffer_3x3:
  "in_buffer (0, 0) (3, 3)
     [[(0, 0, 0), (0, 0, 0), (0, 0, 0)], [(0, 0, 0), (0, 0, 0), (0, 0, 0)], [(0, 0, 0), (0, 0, 0), (0, 0, 0)]]
     [0, 3, 6] [0, 3, 6]"
  by (simp add: in_buffer_def)

lemma region_3x3: "fst (0::int, 0::int) < fst (3::int, 3::int)" "snd (0::int, 0::int) < snd (3::int, 3::int)"
  "\<not> (snd (3::int, 3::int) - snd (0::int, 0::int) = 1 \<and> fst (3::int, 3::int) - fst (0::int, 0::int) = 1)"
  by simp_all





section \<open>Properties of the accelerated renderer\<close>

lemma fits_ext:
  assumes "fits x y a" "fits x y b"
    and "\<And>i j. 0 \<le> i \<Longrightarrow> i < int (length x) \<Longrightarrow> 0 \<le> j \<Longrightarrow> j < int (length y)
           \<Longrightarrow> a ! nat j ! nat i = b ! nat j ! nat i"
  shows "a = b"
proof (rule nth_equalityI)
  from assms(1,2) show l: "length a = length b"
    by (simp add: fits_def)
  fix r assume r: "r < length a"
  with assms(1) have ry: "r < length y"
    by (simp add: fits_def)
  have la: "length (a ! r) = length x" and lb: "length (b ! r) = length x"
    using assms(1,2) ry by (simp_all add: fits_row)
  show "a ! r = b ! r"
  proof (rule nth_equalityI)
    show "length (a ! r) = length (b ! r)"
      using la lb by simp
    fix c assume "c < length (a ! r)"
    with la have "c < length x"
      by simp
    with assms(3) [of "int c" "int r"] ry show "a ! r ! c = b ! r ! c"
      by simp
  qed
qed

lemma border_cells_eta:
  "border_cells \<lparr>top_left = top_left q, bottom_right = bottom_right q\<rparr> = border_cells q"
  by (simp add: border_cells_def cells_def)

lemma region_ok_in_buffer:
  "fits x y pixels \<Longrightarrow> region_ok x y q \<Longrightarrow> in_buffer (top_left q) (bottom_right q) pixels x y"
  by (simp add: region_ok_def in_buffer_def fits_def)

lemma fits_scan_pixels [simp]: "fits x y a \<Longrightarrow> fits x y (scan_pixels f q a)"
  by (simp add: scan_pixels_def fits_write_calls)

lemma scan_pixels_nth:
  assumes "fits x y a" "region_ok x y q" "0 \<le> i" "i < int (length x)" "0 \<le> j" "j < int (length y)"
  shows "scan_pixels f q a ! nat j ! nat i = (if (i, j) \<in> scan_cells q then f (i, j) else a ! nat j ! nat i)"
proof (cases "single q")
  case True
  then show ?thesis
    by (simp add: scan_pixels_def scan_cells_def)
next
  case False
  from assms(2) have r: "0 \<le> fst (top_left q)" "0 \<le> snd (top_left q)"
      "snd (top_left q) < snd (bottom_right q)" "fst (top_left q) < fst (bottom_right q)"
    by (simp_all add: region_ok_def)
  have s: "set (border_calls (top_left q) (bottom_right q)) = border_cells q"
    using set_border_calls [OF r(4,3)] by (simp add: border_cells_eta)
  show ?thesis
    using False write_calls_nth [OF assms(1,3,4,5,6) border_calls_nonneg [OF r], of f]
    by (simp add: scan_pixels_def scan_cells_def s)
qed

lemma m_scan:
  assumes "fits (m_x m) (m_y m) pixels" "region_ok (m_x m) (m_y m) q"
  shows "m_calculate_quadtree m q pixels
       = Inr (scan_result (m_color m) q, scan_pixels (m_color m) q pixels, scan_log q)"
proof -
  note ib = region_ok_in_buffer [OF assms]
  from assms(2) have r: "fst (top_left q) < fst (bottom_right q)" "snd (top_left q) < snd (bottom_right q)"
    by (simp_all add: region_ok_def)
  have s: "set (border_calls (top_left q) (bottom_right q)) = border_cells q"
    using set_border_calls [OF r] by (simp add: border_cells_eta)
  show ?thesis
  proof (cases "single q")
    case True
    then have d: "snd (bottom_right q) - snd (top_left q) = 1" "fst (bottom_right q) - fst (top_left q) = 1"
      by (simp_all add: single_def QuadTree_rows_def QuadTree_cols_def)
    then have "\<not> wants_split (m_color m) q"
      by (simp add: wants_split_def QuadTree_cols_def)
    with True show ?thesis
      unfolding m_calculate_quadtree_def accel_scan_single [OF ib d]
      by (simp add: m_color_def scan_result_def scan_pixels_def scan_log_def split: prod.splits)
  next
    case False
    then have d: "\<not> (snd (bottom_right q) - snd (top_left q) = 1 \<and> fst (bottom_right q) - fst (top_left q) = 1)"
      by (simp add: single_def QuadTree_rows_def QuadTree_cols_def)
    show ?thesis
      unfolding m_calculate_quadtree_def accel_scan_char [OF ib r d] Let_def s
      using False
      by (simp add: m_color_def scan_result_def scan_pixels_def scan_log_def wants_split_def
          QuadTree_rows_def QuadTree_cols_def split: prod.splits)
  qed
qed

lemma length_assign_slice [simp]: "length (assign_slice a r0 r1 c0 c1 v) = length a"
  by (simp add: assign_slice_def)

lemma assign_slice_row:
  assumes "r < length a"
  shows "assign_slice a r0 r1 c0 c1 v ! r =
     (if slice_bound (length a) r0 \<le> r \<and> r < slice_bound (length a) r1
      then map (\<lambda>(i, c). if slice_bound (length (a ! r)) c0 \<le> i \<and> i < slice_bound (length (a ! r)) c1
                          then v else c) (enumerate 0 (a ! r))
      else a ! r)"
  using assms by (simp add: assign_slice_def nth_enumerate_eq)

lemma length_assign_slice_row [simp]:
  "r < length a \<Longrightarrow> length (assign_slice a r0 r1 c0 c1 v ! r) = length (a ! r)"
  by (simp add: assign_slice_row)

lemma assign_slice_nth:
  assumes "r < length a" "c < length (a ! r)"
  shows "assign_slice a r0 r1 c0 c1 v ! r ! c =
     (if slice_bound (length a) r0 \<le> r \<and> r < slice_bound (length a) r1
         \<and> slice_bound (length (a ! r)) c0 \<le> c \<and> c < slice_bound (length (a ! r)) c1
      then v else a ! r ! c)"
  using assms by (simp add: assign_slice_row nth_enumerate_eq)

lemma fits_assign_slice [simp]: "fits x y a \<Longrightarrow> fits x y (assign_slice a r0 r1 c0 c1 v)"
  by (simp add: fits_def list_all_length)

lemma fits_interior_fill [simp]: "fits x y a \<Longrightarrow> fits x y (interior_fill q v a)"
  by (simp add: interior_fill_def)

lemma slice_bound_between:
  assumes "0 \<le> r0" "0 \<le> r1" "0 \<le> j" "nat j < n"
  shows "slice_bound n r0 \<le> nat j \<and> nat j < slice_bound n r1 \<longleftrightarrow> r0 \<le> j \<and> j < r1"
  using assms by (auto simp: slice_bound_def)

lemma interior_fill_nth:
  assumes "fits x y a" "region_ok x y q" "0 \<le> i" "i < int (length x)" "0 \<le> j" "j < int (length y)"
  shows "interior_fill q v a ! nat j ! nat i = (if (i, j) \<in> interior q then v else a ! nat j ! nat i)"
proof -
  from assms(1,5,6) have l: "nat j < length a" "length (a ! nat j) = length x"
    by (simp_all add: fits_def list_all_length)
  with assms(3,4) have c: "nat i < length (a ! nat j)"
    by simp
  from assms(2) have b: "0 \<le> snd (top_left q) + 1" "0 \<le> snd (bottom_right q) - 1"
      "0 \<le> fst (top_left q) + 1" "0 \<le> fst (bottom_right q) - 1"
    by (simp_all add: region_ok_def)
  have rows: "slice_bound (length a) (snd (top_left q) + 1) \<le> nat j
        \<and> nat j < slice_bound (length a) (snd (bottom_right q) - 1)
      \<longleftrightarrow> snd (top_left q) + 1 \<le> j \<and> j < snd (bottom_right q) - 1"
    by (rule slice_bound_between [OF b(1,2) assms(5) l(1)])
  have cols: "slice_bound (length (a ! nat j)) (fst (top_left q) + 1) \<le> nat i
        \<and> nat i < slice_bound (length (a ! nat j)) (fst (bottom_right q) - 1)
      \<longleftrightarrow> fst (top_left q) + 1 \<le> i \<and> i < fst (bottom_right q) - 1"
    by (rule slice_bound_between [OF b(3,4) assms(3) c])
  have "interior_fill q v a ! nat j ! nat i =
     (if (slice_bound (length a) (snd (top_left q) + 1) \<le> nat j
            \<and> nat j < slice_bound (length a) (snd (bottom_right q) - 1))
         \<and> (slice_bound (length (a ! nat j)) (fst (top_left q) + 1) \<le> nat i
            \<and> nat i < slice_bound (length (a ! nat j)) (fst (bottom_right q) - 1))
      then v else a ! nat j ! nat i)"
    unfolding interior_fill_def assign_slice_nth [OF l(1) c] by simp
  also have "\<dots> = (if (i, j) \<in> interior q then v else a ! nat j ! nat i)"
    unfolding rows cols by (auto simp: interior_def)
  finally show ?thesis .
qed

lemma fill_array_ok:
  assumes "fits x y a" "region_ok x y q"
  shows "QuadTree_fill_array q a v 1 = Inr (interior_fill q v a)"
proof -
  from assms have "\<not> int (length a) < snd (bottom_right q)"
    by (simp add: fits_def region_ok_def)
  then show ?thesis
    by (simp add: QuadTree_fill_array_def interior_fill_def Let_def)
qed

lemma hd_scan_result [simp]: "hd (scan_result f q) \<noteq> 0 \<longleftrightarrow> wants_split f q"
  by (simp add: scan_result_def split: prod.splits)

lemma fill_color_scan_result:
  assumes "fits x y a" "region_ok x y q"
  shows "fill_color q a (tl (scan_result f q)) = Inr (interior_fill q (f (top_left q)) a)"
  by (simp add: fill_color_def scan_result_def fill_array_ok [OF assms] split: prod.splits)

lemma wants_split_ok:
  assumes "wants_split f q"
  shows "\<exists>children. QuadTree_split q 1 = Inr children"
  using assms by (simp add: wants_split_def QuadTree_split_def QuadTree_cols_def QuadTree_rows_def Let_def)

lemma split_kids: "wants_split f q \<Longrightarrow> QuadTree_split q 1 = Inr (kids f q)"
  using wants_split_ok [of f q] by (auto simp: kids_def)

lemma kids_nil [simp]: "\<not> wants_split f q \<Longrightarrow> kids f q = []"
  by (simp add: kids_def)

lemma fits_post [simp]: "fits x y a \<Longrightarrow> fits x y (post f q a)"
  by (simp add: post_def)

text \<open>One turn of the sequential queue loop.\<close>

lemma normal_quadtree_loop_step:
  assumes "fits (m_x m) (m_y m) pixels" "region_ok (m_x m) (m_y m) q"
  shows "normal_quadtree_loop m (q # queue) pixels =
     normal_quadtree_loop m (queue @ kids (m_color m) q)
       (post (m_color m) q (scan_pixels (m_color m) q pixels))"
proof (cases "wants_split (m_color m) q")
  case True
  then show ?thesis
    by (simp add: m_scan [OF assms] split_kids post_def)
next
  case False
  have f: "fits (m_x m) (m_y m) (scan_pixels (m_color m) q pixels)"
    using assms(1) by simp
  from False show ?thesis
    by (simp add: m_scan [OF assms] fill_color_scan_result [OF f assms(2)] post_def)
qed

declare normal_quadtree_loop.simps(2) [simp del]

lemma scan_cells_subset: "scan_cells q \<subseteq> cells q"
  by (auto simp: scan_cells_def border_cells_def)

lemma interior_subset: "interior q \<subseteq> cells q"
  by (auto simp: interior_def cells_def)

lemma single_no_cells: "single q \<Longrightarrow> scan_cells q = {} \<and> interior q = {}"
  by (auto simp: single_def scan_cells_def interior_def QuadTree_rows_def QuadTree_cols_def)

lemma turn_nth:
  assumes "fits x y a" "region_ok x y q" "0 \<le> i" "i < int (length x)" "0 \<le> j" "j < int (length y)"
  shows "post f q (scan_pixels f q a) ! nat j ! nat i =
     (if \<not> wants_split f q \<and> (i, j) \<in> interior q then f (top_left q)
      else if (i, j) \<in> scan_cells q then f (i, j) else a ! nat j ! nat i)"
proof -
  have s: "fits x y (scan_pixels f q a)"
    using assms(1) by simp
  show ?thesis
    by (simp add: post_def interior_fill_nth [OF s assms(2-6)] scan_pixels_nth [OF assms])
qed

lemma turn_untouched:
  assumes "fits x y a" "region_ok x y q" "0 \<le> i" "i < int (length x)" "0 \<le> j" "j < int (length y)"
    and "(i, j) \<notin> cells q \<or> single q"
  shows "post f q (scan_pixels f q a) ! nat j ! nat i = a ! nat j ! nat i"
proof -
  from assms(7) have "(i, j) \<notin> interior q \<and> (i, j) \<notin> scan_cells q"
    using scan_cells_subset [of q] interior_subset [of q] single_no_cells [of q] by blast
  then show ?thesis
    by (simp add: turn_nth [OF assms(1-6)])
qed

text \<open>A \<open>1 \<times> 1\<close> region is evaluated, and the pixel array is left as it was.\<close>

lemma single_region_turn:
  assumes "fits (m_x m) (m_y m) pixels" "region_ok (m_x m) (m_y m) q" "single q"
  shows "normal_quadtree_loop m (q # queue) pixels = normal_quadtree_loop m queue pixels"
proof -
  let ?f = "m_color m"
  have "post ?f q (scan_pixels ?f q pixels) = pixels"
  proof (rule fits_ext [of "m_x m" "m_y m"])
    show "fits (m_x m) (m_y m) (post ?f q (scan_pixels ?f q pixels))"
      using assms(1) by simp
    show "fits (m_x m) (m_y m) pixels"
      by (rule assms(1))
    fix i j assume "0 \<le> i" "i < int (length (m_x m))" "0 \<le> j" "j < int (length (m_y m))"
    then show "post ?f q (scan_pixels ?f q pixels) ! nat j ! nat i = pixels ! nat j ! nat i"
      using turn_untouched [OF assms(1,2)] assms(3) by blast
  qed
  moreover from assms(3) have "\<not> wants_split ?f q"
    by (simp add: wants_split_def single_def)
  ultimately show ?thesis
    by (simp add: normal_quadtree_loop_step [OF assms(1,2)])
qed

lemma compute_raster_no_columns:
  "compute_raster pixels [[]] x y mi er smooth cs pc = Inr pixels"
proof -
  have inner: "for_range (\<lambda>j. raster_pixel calc [[]] x y i j) js px = Inr px" for calc i js px
    by (induction js) (simp_all add: raster_pixel_def shape1_def)
  have outer: "for_range (\<lambda>i. for_range (\<lambda>j. raster_pixel calc [[]] x y i j) js) is px = Inr px"
    for calc js "is" px
    by (induction "is") (simp_all add: inner)
  show ?thesis
    by (simp add: compute_raster_def Let_def outer)
qed

lemma init_fields [simp]:
  "m_x (AcceleratedMandelbrot_init x y mi er cs smooth raster mixed fast) = x"
  "m_y (AcceleratedMandelbrot_init x y mi er cs smooth raster mixed fast) = y"
  "m_pixels (AcceleratedMandelbrot_init x y mi er cs smooth raster mixed fast)
     = replicate (length y) (replicate (length x) (0, 0, 0))"
  "m_quad_tree (AcceleratedMandelbrot_init x y mi er cs smooth raster mixed fast)
     = \<lparr>top_left = (0, 0), bottom_right = (int (length x), int (length y))\<rparr>"
  "m_size (AcceleratedMandelbrot_init x y mi er cs smooth raster mixed fast)
     = (int (length x), int (length y))"
  "m_raster (AcceleratedMandelbrot_init x y mi er cs smooth raster mixed fast) = raster"
  "m_mixed_raster (AcceleratedMandelbrot_init x y mi er cs smooth raster mixed fast) = mixed"
  "m_fast_quadtree (AcceleratedMandelbrot_init x y mi er cs smooth raster mixed fast)
     = (\<not> raster \<and> fast)"
  "m_color (AcceleratedMandelbrot_init x y mi er cs smooth raster mixed fast)
     = accel_color x y mi er smooth cs True"
  by (simp_all add: AcceleratedMandelbrot_init_def m_color_def)

lemma fits_zeros [simp]: "fits x y (replicate (length y) (replicate (length x) v))"
  by (simp add: fits_def list_all_length)

lemma zeros_nth: "0 \<le> j \<Longrightarrow> j < int (length y) \<Longrightarrow> 0 \<le> i \<Longrightarrow> i < int (length x)
    \<Longrightarrow> replicate (length y) (replicate (length x) v) ! nat j ! nat i = v"
  by simp

text \<open>
  C2 (the code departs from the claim). On the \<open>3 \<times> 3\<close> image over the grid \<open>x = y = [0, 3, 6]\<close>
  the sequential quadtree renderer finishes, and the top-left pixel, whose computed colour
  is white, still holds the zeros the buffer was created with: it forms a \<open>1 \<times> 1\<close> region of
  the queue, which is evaluated and never written. In raster mode the raster pass itself
  leaves every pixel as it was, and the same queue loop follows.
\<close>

theorem single_pixel_region_left_unwritten:
  "(\<exists>px. Accelerated_generate
             (AcceleratedMandelbrot_init [0, 3, 6] [0, 3, 6] 4 2 Accelerated_grayscale False
                False False False) = Inr px
         \<and> px ! 0 ! 0 = (0, 0, 0))
   \<and> (\<exists>px. Accelerated_generate
             (AcceleratedMandelbrot_init [0, 3, 6] [0, 3, 6] 4 2 Accelerated_grayscale False
                True False False) = Inr px
         \<and> px ! 0 ! 0 = (0, 0, 0))
   \<and> m_color (AcceleratedMandelbrot_init [0, 3, 6] [0, 3, 6] 4 2 Accelerated_grayscale False
                False False False) (0, 0) = (255, 255, 255)
   \<and> m_compute_raster (AcceleratedMandelbrot_init [0, 3, 6] [0, 3, 6] 4 2 Accelerated_grayscale
                False True False False) [[(0, 0, 0)]] [[]] = Inr [[(0, 0, 0)]]"
proof -
  define m where "m = (\<lambda>raster. AcceleratedMandelbrot_init [0, 3, 6] [0, 3, 6] 4 2
     Accelerated_grayscale False raster False False)"
  let ?A = "\<lparr>top_left = (0, 0), bottom_right = (1, 1)\<rparr>"
  let ?B = "\<lparr>top_left = (1, 0), bottom_right = (3, 1)\<rparr>"
  let ?C = "\<lparr>top_left = (0, 1), bottom_right = (1, 3)\<rparr>"
  let ?D = "\<lparr>top_left = (1, 1), bottom_right = (3, 3)\<rparr>"
  let ?px0 = "replicate (length [0::real, 3, 6]) (replicate (length [0::real, 3, 6]) (0::8 word, 0::8 word, 0::8 word))"
  have xy [simp]: "m_x (m r) = [0, 3, 6]" "m_y (m r) = [0, 3, 6]" for r
    by (simp_all add: m_def)
  have root: "QuadTree_split (m_quad_tree (m r)) 0 = Inr [?A, ?B, ?C, ?D]" for r
    by (simp add: m_def QuadTree_split_def Let_def)
  have ok: "region_ok [0, 3, 6] [0, 3, 6] ?A" "region_ok [0, 3, 6] [0, 3, 6] ?B"
      "region_ok [0, 3, 6] [0, 3, 6] ?C" "region_ok [0, 3, 6] [0, 3, 6] ?D"
    by (simp_all add: region_ok_def)
  have ns: "\<not> wants_split f ?A" "\<not> wants_split f ?B" "\<not> wants_split f ?C" "\<not> wants_split f ?D" for f
    by (simp_all add: wants_split_def QuadTree_cols_def)
  have out: "(0, 0) \<notin> cells ?B" "(0, 0) \<notin> cells ?C" "(0, 0) \<notin> cells ?D" "single ?A"
    by (simp_all add: cells_def single_def QuadTree_rows_def QuadTree_cols_def)
  have loop: "\<exists>px. normal_quadtree_loop (m r) [?A, ?B, ?C, ?D] ?px0 = Inr px \<and> px ! 0 ! 0 = (0, 0, 0)" for r
  proof -
    let ?f = "m_color (m r)"
    define a1 where "a1 = post ?f ?A (scan_pixels ?f ?A ?px0)"
    define a2 where "a2 = post ?f ?B (scan_pixels ?f ?B a1)"
    define a3 where "a3 = post ?f ?C (scan_pixels ?f ?C a2)"
    define a4 where "a4 = post ?f ?D (scan_pixels ?f ?D a3)"
    have f0: "fits [0, 3, 6] [0, 3, 6] ?px0"
      by (rule fits_zeros)
    have f1: "fits [0, 3, 6] [0, 3, 6] a1"
      unfolding a1_def using f0 by simp
    have f2: "fits [0, 3, 6] [0, 3, 6] a2"
      unfolding a2_def using f1 by simp
    have f3: "fits [0, 3, 6] [0, 3, 6] a3"
      unfolding a3_def using f2 by simp
    have "normal_quadtree_loop (m r) [?A, ?B, ?C, ?D] ?px0
        = normal_quadtree_loop (m r) [?B, ?C, ?D] a1"
      using normal_quadtree_loop_step [of "m r" ?px0 ?A "[?B, ?C, ?D]"] f0 ok(1) ns(1) [of ?f]
      by (simp add: a1_def)
    also have "\<dots> = normal_quadtree_loop (m r) [?C, ?D] a2"
      using normal_quadtree_loop_step [of "m r" a1 ?B "[?C, ?D]"] f1 ok(2) ns(2) [of ?f]
      by (simp add: a2_def)
    also have "\<dots> = normal_quadtree_loop (m r) [?D] a3"
      using normal_quadtree_loop_step [of "m r" a2 ?C "[?D]"] f2 ok(3) ns(3) [of ?f]
      by (simp add: a3_def)
    also have "\<dots> = normal_quadtree_loop (m r) [] a4"
      using normal_quadtree_loop_step [of "m r" a3 ?D "[]"] f3 ok(4) ns(4) [of ?f]
      by (simp add: a4_def)
    finally have res: "normal_quadtree_loop (m r) [?A, ?B, ?C, ?D] ?px0 = Inr a4"
      by simp
    have "a4 ! nat 0 ! nat 0 = a3 ! nat 0 ! nat 0"
      unfolding a4_def using turn_untouched [OF f3 ok(4), of 0 0 ?f] out(3) by simp
    also have "\<dots> = a2 ! nat 0 ! nat 0"
      unfolding a3_def using turn_untouched [OF f2 ok(3), of 0 0 ?f] out(2) by simp
    also have "\<dots> = a1 ! nat 0 ! nat 0"
      unfolding a2_def using turn_untouched [OF f1 ok(2), of 0 0 ?f] out(1) by simp
    also have "\<dots> = ?px0 ! nat 0 ! nat 0"
      unfolding a1_def using turn_untouched [OF f0 ok(1), of 0 0 ?f] out(4) by simp
    also have "\<dots> = (0, 0, 0)"
      by simp
    finally have "a4 ! 0 ! 0 = (0, 0, 0)"
      by simp
    with res show ?thesis
      by blast
  qed
  have g: "Accelerated_generate (m r) = normal_quadtree_loop (m r) [?A, ?B, ?C, ?D] ?px0" for r
    by (simp add: Accelerated_generate_def normal_quadtree_def root m_compute_raster_def
        compute_raster_no_columns) (simp add: m_def)
  have c: "m_color (m False) (0, 0) = (255, 255, 255)"
    by (simp add: m_def accel_color_def accel_gray_in main_body_samples)
  have n: "m_compute_raster (m True) [[(0, 0, 0)]] [[]] = Inr [[(0, 0, 0)]]"
    by (simp add: m_compute_raster_def compute_raster_no_columns)
  from loop [of False] g [of False] have 1:
    "\<exists>px. Accelerated_generate (m False) = Inr px \<and> px ! 0 ! 0 = (0, 0, 0)"
    by simp
  from loop [of True] g [of True] have 2:
    "\<exists>px. Accelerated_generate (m True) = Inr px \<and> px ! 0 ! 0 = (0, 0, 0)"
    by simp
  from 1 2 c n show ?thesis
    unfolding m_def by blast
qed

lemma cells_disjointI:
  "fst (bottom_right q) \<le> fst (top_left r) \<or> fst (bottom_right r) \<le> fst (top_left q)
     \<or> snd (bottom_right q) \<le> snd (top_left r) \<or> snd (bottom_right r) \<le> snd (top_left q)
   \<Longrightarrow> cells q \<inter> cells r = {}"
  by (auto simp: cells_def)

lemma cells_mono:
  "fst (top_left q) \<le> fst (top_left c) \<Longrightarrow> fst (bottom_right c) \<le> fst (bottom_right q)
     \<Longrightarrow> snd (top_left q) \<le> snd (top_left c) \<Longrightarrow> snd (bottom_right c) \<le> snd (bottom_right q)
     \<Longrightarrow> cells c \<subseteq> cells q"
  by (auto simp: cells_def)

text \<open>The forms of the result of \<^verbatim>\<open>split\<close>.\<close>

lemma split_cases:
  assumes "QuadTree_split q b = Inr ch"
  obtains
    (one) "ch = [\<lparr>top_left = (fst (top_left q) + b, snd (top_left q) + b),
                  bottom_right = (fst (bottom_right q) - b, snd (bottom_right q) - b)\<rparr>]"
          "fst (bottom_right q) - b - (fst (top_left q) + b) = 1"
          "snd (bottom_right q) - b - (snd (top_left q) + b) = 1"
  | (row) k where "ch = [\<lparr>top_left = (fst (top_left q) + b, snd (top_left q) + b),
                    bottom_right = (fst (top_left q) + b + k, snd (bottom_right q) - b)\<rparr>,
                  \<lparr>top_left = (fst (top_left q) + b + k, snd (top_left q) + b),
                    bottom_right = (fst (bottom_right q) - b, snd (bottom_right q) - b)\<rparr>]"
          "0 < k" "fst (top_left q) + b + k < fst (bottom_right q) - b"
          "snd (bottom_right q) - b - (snd (top_left q) + b) = 1"
  | (col) l where "ch = [\<lparr>top_left = (fst (top_left q) + b, snd (top_left q) + b),
                    bottom_right = (fst (bottom_right q) - b, snd (top_left q) + b + l)\<rparr>,
                  \<lparr>top_left = (fst (top_left q) + b, snd (top_left q) + b + l),
                    bottom_right = (fst (bottom_right q) - b, snd (bottom_right q) - b)\<rparr>]"
          "0 < l" "snd (top_left q) + b + l < snd (bottom_right q) - b"
          "fst (bottom_right q) - b - (fst (top_left q) + b) = 1"
  | (four) k l where "ch = [\<lparr>top_left = (fst (top_left q) + b, snd (top_left q) + b),
                       bottom_right = (fst (top_left q) + b + k, snd (top_left q) + b + l)\<rparr>,
                     \<lparr>top_left = (fst (top_left q) + b + k, snd (top_left q) + b),
                       bottom_right = (fst (bottom_right q) - b, snd (top_left q) + b + l)\<rparr>,
                     \<lparr>top_left = (fst (top_left q) + b, snd (top_left q) + b + l),
                       bottom_right = (fst (top_left q) + b + k, snd (bottom_right q) - b)\<rparr>,
                     \<lparr>top_left = (fst (top_left q) + b + k, snd (top_left q) + b + l),
                       bottom_right = (fst (bottom_right q) - b, snd (bottom_right q) - b)\<rparr>]"
          "0 < k" "fst (top_left q) + b + k < fst (bottom_right q) - b"
          "0 < l" "snd (top_left q) + b + l < snd (bottom_right q) - b"
proof -
  let ?c = "fst (bottom_right q) - b - (fst (top_left q) + b)"
  let ?r = "snd (bottom_right q) - b - (snd (top_left q) + b)"
  from assms have pos: "1 \<le> ?r" "1 \<le> ?c"
    by (auto simp: QuadTree_split_def Let_def split: if_splits)
  consider "?r = 1 \<and> ?c = 1" | "?r = 1 \<and> ?c \<noteq> 1" | "?r \<noteq> 1 \<and> ?c = 1" | "?r \<noteq> 1 \<and> ?c \<noteq> 1"
    by blast
  then show thesis
  proof cases
    case 1
    with assms pos show ?thesis
      by (intro one) (auto simp: QuadTree_split_def Let_def)
  next
    case 2
    with pos have k: "0 < ?c div 2" "fst (top_left q) + b + ?c div 2 < fst (bottom_right q) - b"
      by linarith+
    from 2 assms pos show ?thesis
      by (intro row [of "?c div 2"] k) (auto simp: QuadTree_split_def Let_def)
  next
    case 3
    with pos have l: "0 < ?r div 2" "snd (top_left q) + b + ?r div 2 < snd (bottom_right q) - b"
      by linarith+
    from 3 assms pos show ?thesis
      by (intro col [of "?r div 2"] l) (auto simp: QuadTree_split_def Let_def)
  next
    case 4
    with pos have k: "0 < ?c div 2" "fst (top_left q) + b + ?c div 2 < fst (bottom_right q) - b"
      and l: "0 < ?r div 2" "snd (top_left q) + b + ?r div 2 < snd (bottom_right q) - b"
      by linarith+
    from 4 assms pos show ?thesis
      by (intro four [of "?c div 2" "?r div 2"] k l) (auto simp: QuadTree_split_def Let_def)
  qed
qed

lemma split_regions:
  assumes "QuadTree_split q b = Inr ch" "0 \<le> b" "region_ok x y q"
  shows "list_all (region_ok x y) ch \<and> disjoint_regions ch \<and> (\<forall>c \<in> set ch. cells c \<subseteq> cells q)"
  using assms(1)
proof (cases rule: split_cases)
  case one
  with assms(2,3) show ?thesis
    by (simp add: region_ok_def cells_mono)
next
  case (row k)
  with assms(2,3) show ?thesis
    by (simp add: region_ok_def cells_mono cells_disjointI)
next
  case (col l)
  with assms(2,3) show ?thesis
    by (simp add: region_ok_def cells_mono cells_disjointI)
next
  case (four k l)
  with assms(2,3) show ?thesis
    by (simp add: region_ok_def cells_mono cells_disjointI)
qed

lemma disjoint_regions_append:
  "disjoint_regions (as @ bs) \<longleftrightarrow>
     disjoint_regions as \<and> disjoint_regions bs \<and> (\<forall>a \<in> set as. \<forall>b \<in> set bs. cells a \<inter> cells b = {})"
  by (induction as) auto

lemma kids_regions:
  assumes "region_ok x y q"
  shows "list_all (region_ok x y) (kids f q) \<and> disjoint_regions (kids f q)
       \<and> (\<forall>c \<in> set (kids f q). cells c \<subseteq> cells q)"
proof (cases "wants_split f q")
  case True
  from split_regions [OF split_kids [OF True] _ assms] show ?thesis
    by simp
next
  case False
  then show ?thesis
    by simp
qed

lemma queue_ok_kids:
  assumes "queue_ok x y qs"
  shows "queue_ok x y (concat (map (kids f) qs))"
  using assms
proof (induction qs)
  case Nil
  then show ?case
    by (simp add: queue_ok_def)
next
  case (Cons q qs)
  then have q: "region_ok x y q" and d: "\<forall>r \<in> set qs. cells q \<inter> cells r = {}"
    and rest: "queue_ok x y qs" and oks: "list_all (region_ok x y) qs"
    by (simp_all add: queue_ok_def)
  note k = kids_regions [OF q, of f]
  have sub: "\<forall>c \<in> set (concat (map (kids f) qs)). \<exists>r \<in> set qs. cells c \<subseteq> cells r"
  proof
    fix c assume "c \<in> set (concat (map (kids f) qs))"
    then obtain r where r: "r \<in> set qs" "c \<in> set (kids f r)"
      by auto
    with oks have "region_ok x y r"
      by (simp add: list_all_iff)
    from kids_regions [OF this, of f] r show "\<exists>r \<in> set qs. cells c \<subseteq> cells r"
      by blast
  qed
  have cross: "\<forall>a \<in> set (kids f q). \<forall>b \<in> set (concat (map (kids f) qs)). cells a \<inter> cells b = {}"
  proof (intro ballI)
    fix a b assume a: "a \<in> set (kids f q)" and b: "b \<in> set (concat (map (kids f) qs))"
    from sub b obtain r where r: "r \<in> set qs" "cells b \<subseteq> cells r"
      by blast
    from k a have "cells a \<subseteq> cells q"
      by blast
    with r d show "cells a \<inter> cells b = {}"
      by blast
  qed
  from Cons.IH [OF rest] k cross show ?case
    by (simp add: queue_ok_def disjoint_regions_append)
qed

text \<open>The sequential loop, one level of the queue at a time.\<close>

lemma normal_quadtree_loop_level:
  assumes "fits (m_x m) (m_y m) pixels" "list_all (region_ok (m_x m) (m_y m)) qs"
  shows "normal_quadtree_loop m (qs @ cs) pixels =
     normal_quadtree_loop m (cs @ concat (map (kids (m_color m)) qs))
       (foldl (\<lambda>a q. post (m_color m) q (scan_pixels (m_color m) q a)) pixels qs)"
  using assms
proof (induction qs arbitrary: cs pixels)
  case Nil
  then show ?case
    by simp
next
  case (Cons q qs)
  let ?f = "m_color m"
  from Cons.prems have q: "region_ok (m_x m) (m_y m) q" and qs: "list_all (region_ok (m_x m) (m_y m)) qs"
    by simp_all
  have f: "fits (m_x m) (m_y m) (post ?f q (scan_pixels ?f q pixels))"
    using Cons.prems(1) by simp
  have "normal_quadtree_loop m ((q # qs) @ cs) pixels
      = normal_quadtree_loop m (qs @ (cs @ kids ?f q)) (post ?f q (scan_pixels ?f q pixels))"
    using normal_quadtree_loop_step [OF Cons.prems(1) q, of "qs @ cs"] by simp
  also have "\<dots> = normal_quadtree_loop m ((cs @ kids ?f q) @ concat (map (kids ?f) qs))
       (foldl (\<lambda>a q. post ?f q (scan_pixels ?f q a)) (post ?f q (scan_pixels ?f q pixels)) qs)"
    by (rule Cons.IH [OF f qs])
  finally show ?case
    by simp
qed

text \<open>One batch: all the scans, then all the fills and splits.\<close>

lemma fits_foldl_scan:
  "fits x y a \<Longrightarrow> fits x y (foldl (\<lambda>a q. scan_pixels f q a) a qs)"
  by (induction qs arbitrary: a) simp_all

lemma fits_foldl_post:
  "fits x y a \<Longrightarrow> fits x y (foldl (\<lambda>a q. post f q a) a qs)"
  by (induction qs arbitrary: a) simp_all

lemma compute_fast_quadtree_eq:
  assumes "fits (m_x m) (m_y m) pixels" "list_all (region_ok (m_x m) (m_y m)) qs"
  shows "compute_fast_quadtree m qs pixels =
     Inr (map (scan_result (m_color m)) qs, foldl (\<lambda>a q. scan_pixels (m_color m) q a) pixels qs)"
  using assms
proof (induction qs arbitrary: pixels)
  case Nil
  then show ?case
    by simp
next
  case (Cons q qs)
  from Cons.prems have q: "region_ok (m_x m) (m_y m) q" and qs: "list_all (region_ok (m_x m) (m_y m)) qs"
    by simp_all
  have f: "fits (m_x m) (m_y m) (scan_pixels (m_color m) q pixels)"
    using Cons.prems(1) by simp
  show ?case
    by (simp add: m_scan [OF Cons.prems(1) q] Cons.IH [OF f qs])
qed

lemma fast_results_eq:
  assumes "fits x y pixels" "list_all (region_ok x y) qs"
  shows "fast_results (zip qs (map (scan_result f) qs)) temp_interval pixels =
     Inr (temp_interval @ concat (map (kids f) qs), foldl (\<lambda>a q. post f q a) pixels qs)"
  using assms
proof (induction qs arbitrary: temp_interval pixels)
  case Nil
  then show ?case
    by simp
next
  case (Cons q qs)
  from Cons.prems have q: "region_ok x y q" and qs: "list_all (region_ok x y) qs"
    by simp_all
  show ?case
  proof (cases "wants_split f q")
    case True
    then show ?thesis
      by (simp add: split_kids Cons.IH [OF Cons.prems(1) qs] post_def)
  next
    case False
    have f: "fits x y (interior_fill q (f (top_left q)) pixels)"
      using Cons.prems(1) by simp
    from False show ?thesis
      by (simp add: fill_color_scan_result [OF Cons.prems(1) q] Cons.IH [OF f qs] post_def)
  qed
qed

lemma fast_quadtree_loop_level:
  assumes "fits (m_x m) (m_y m) pixels" "list_all (region_ok (m_x m) (m_y m)) qs" "qs \<noteq> []"
  shows "fast_quadtree_loop m qs pixels =
     fast_quadtree_loop m (concat (map (kids (m_color m)) qs))
       (foldl (\<lambda>a q. post (m_color m) q a)
          (foldl (\<lambda>a q. scan_pixels (m_color m) q a) pixels qs) qs)"
proof -
  have f: "fits (m_x m) (m_y m) (foldl (\<lambda>a q. scan_pixels (m_color m) q a) pixels qs)"
    using assms(1) by (rule fits_foldl_scan)
  show ?thesis
    by (subst fast_quadtree_loop.simps)
      (simp add: assms(3) compute_fast_quadtree_eq [OF assms(1,2)] fast_results_eq [OF f assms(2)])
qed

lemma post_nth:
  assumes "fits x y a" "region_ok x y q" "0 \<le> i" "i < int (length x)" "0 \<le> j" "j < int (length y)"
  shows "post f q a ! nat j ! nat i =
     (if \<not> wants_split f q \<and> (i, j) \<in> interior q then f (top_left q) else a ! nat j ! nat i)"
  by (simp add: post_def interior_fill_nth [OF assms])

text \<open>
  The fill of one region and the scan of another, disjoint from it, write different
  cells: they can be exchanged.
\<close>

lemma scan_post_commute:
  assumes "fits x y a" "region_ok x y q" "region_ok x y r" "cells q \<inter> cells r = {}"
  shows "scan_pixels f r (post f q a) = post f q (scan_pixels f r a)"
proof (rule fits_ext [of x y])
  show "fits x y (scan_pixels f r (post f q a))" "fits x y (post f q (scan_pixels f r a))"
    using assms(1) by simp_all
  fix i j assume b: "0 \<le> i" "i < int (length x)" "0 \<le> j" "j < int (length y)"
  have p: "fits x y (post f q a)" and s: "fits x y (scan_pixels f r a)"
    using assms(1) by simp_all
  have "\<not> ((i, j) \<in> interior q \<and> (i, j) \<in> scan_cells r)"
    using assms(4) interior_subset [of q] scan_cells_subset [of r] by blast
  then show "scan_pixels f r (post f q a) ! nat j ! nat i = post f q (scan_pixels f r a) ! nat j ! nat i"
    by (auto simp: scan_pixels_nth [OF p assms(3) b] post_nth [OF assms(1,2) b]
        post_nth [OF s assms(2) b] scan_pixels_nth [OF assms(1,3) b])
qed

lemma scans_post_commute:
  assumes "fits x y a" "region_ok x y q" "list_all (region_ok x y) qs"
    and "\<forall>r \<in> set qs. cells q \<inter> cells r = {}"
  shows "foldl (\<lambda>a q. scan_pixels f q a) (post f q a) qs
       = post f q (foldl (\<lambda>a q. scan_pixels f q a) a qs)"
  using assms(1,3,4)
proof (induction qs arbitrary: a)
  case Nil
  then show ?case
    by simp
next
  case (Cons r qs)
  then have r: "region_ok x y r" "cells q \<inter> cells r = {}" and qs: "list_all (region_ok x y) qs"
    "\<forall>r \<in> set qs. cells q \<inter> cells r = {}"
    by simp_all
  have f: "fits x y (scan_pixels f r a)"
    using Cons.prems(1) by simp
  show ?case
    by (simp add: scan_post_commute [OF Cons.prems(1) assms(2) r] Cons.IH [OF f qs])
qed

lemma level_commute:
  assumes "fits x y a" "queue_ok x y qs"
  shows "foldl (\<lambda>a q. post f q (scan_pixels f q a)) a qs
       = foldl (\<lambda>a q. post f q a) (foldl (\<lambda>a q. scan_pixels f q a) a qs) qs"
  using assms
proof (induction qs arbitrary: a)
  case Nil
  then show ?case
    by simp
next
  case (Cons q qs)
  then have q: "region_ok x y q" and oks: "list_all (region_ok x y) qs"
    and d: "\<forall>r \<in> set qs. cells q \<inter> cells r = {}" and rest: "queue_ok x y qs"
    by (simp_all add: queue_ok_def)
  have s: "fits x y (scan_pixels f q a)"
    using Cons.prems(1) by simp
  then have t: "fits x y (post f q (scan_pixels f q a))"
    by simp
  show ?case
    by (simp add: Cons.IH [OF t rest] scans_post_commute [OF s q oks d])
qed

lemma kids_weight: "queue_weight (kids f q) < region_weight q"
proof (cases "wants_split f q")
  case True
  from split_weight [OF split_kids [OF True]] show ?thesis .
next
  case False
  then show ?thesis
    by (simp add: region_weight_pos)
qed

lemma kids_level_weight:
  "qs \<noteq> [] \<Longrightarrow> queue_weight (concat (map (kids f) qs)) < queue_weight qs"
proof (induction qs)
  case Nil
  then show ?case
    by simp
next
  case (Cons q qs)
  show ?case
  proof (cases "qs = []")
    case True
    then show ?thesis
      using kids_weight [of f q] by simp
  next
    case False
    from Cons.IH [OF False] kids_weight [of f q] show ?thesis
      by simp
  qed
qed

text \<open>The sequential and the batched queue loop end with the same pixel array.\<close>

lemma loops_agree:
  assumes "m_x m' = m_x m" "m_y m' = m_y m" "m_color m' = m_color m"
    and "queue_ok (m_x m) (m_y m) qs" "fits (m_x m) (m_y m) pixels"
  shows "\<exists>r. normal_quadtree_loop m qs pixels = Inr r \<and> fast_quadtree_loop m' qs pixels = Inr r
           \<and> fits (m_x m) (m_y m) r"
  using assms(4,5)
proof (induction "queue_weight qs" arbitrary: qs pixels rule: less_induct)
  case less
  let ?f = "m_color m"
  show ?case
  proof (cases "qs = []")
    case True
    with less.prems(2) show ?thesis
      by (simp add: fast_quadtree_loop.simps)
  next
    case False
    let ?K = "concat (map (kids ?f) qs)"
    let ?a = "foldl (\<lambda>a q. post ?f q a) (foldl (\<lambda>a q. scan_pixels ?f q a) pixels qs) qs"
    from less.prems(1) have oks: "list_all (region_ok (m_x m) (m_y m)) qs"
      by (simp add: queue_ok_def)
    have K: "queue_ok (m_x m) (m_y m) ?K"
      by (rule queue_ok_kids [OF less.prems(1)])
    have a: "fits (m_x m) (m_y m) ?a"
      by (intro fits_foldl_post fits_foldl_scan less.prems(2))
    have "normal_quadtree_loop m qs pixels = normal_quadtree_loop m ?K
        (foldl (\<lambda>a q. post ?f q (scan_pixels ?f q a)) pixels qs)"
      using normal_quadtree_loop_level [OF less.prems(2) oks, of "[]"] by simp
    then have n: "normal_quadtree_loop m qs pixels = normal_quadtree_loop m ?K ?a"
      by (simp add: level_commute [OF less.prems(2,1)])
    have b: "fast_quadtree_loop m' qs pixels = fast_quadtree_loop m' ?K ?a"
      using fast_quadtree_loop_level [of m' pixels qs] less.prems(2) oks False
      by (simp add: assms(1,2,3))
    from less.hyps [OF kids_level_weight [OF False] K a] n b show ?thesis
      by simp
  qed
qed

lemma split_root:
  assumes "region_ok x y q"
  shows "\<exists>children. QuadTree_split q 0 = Inr children \<and> queue_ok x y children"
proof -
  from assms have "\<exists>children. QuadTree_split q 0 = Inr children"
    by (simp add: QuadTree_split_def Let_def region_ok_def)
  then obtain children where c: "QuadTree_split q 0 = Inr children"
    by blast
  from split_regions [OF c _ assms] c show ?thesis
    by (simp add: queue_ok_def)
qed

lemma root_ok:
  "x \<noteq> [] \<Longrightarrow> y \<noteq> [] \<Longrightarrow>
     region_ok x y \<lparr>top_left = (0, 0), bottom_right = (int (length x), int (length y))\<rparr>"
  by (simp add: region_ok_def)

lemma generate_plain:
  "Accelerated_generate (AcceleratedMandelbrot_init x y mi er cs smooth raster False fast) =
     bind_err (QuadTree_split \<lparr>top_left = (0, 0), bottom_right = (int (length x), int (length y))\<rparr> 0)
       (\<lambda>children.
          if \<not> raster \<and> fast
          then fast_quadtree_loop (AcceleratedMandelbrot_init x y mi er cs smooth raster False fast)
                 children (replicate (length y) (replicate (length x) (0, 0, 0)))
          else normal_quadtree_loop (AcceleratedMandelbrot_init x y mi er cs smooth raster False fast)
                 children (replicate (length y) (replicate (length x) (0, 0, 0))))"
  by (cases "QuadTree_split \<lparr>top_left = (0, 0), bottom_right = (int (length x), int (length y))\<rparr> 0")
    (simp_all add: Accelerated_generate_def normal_quadtree_def m_compute_raster_def
      compute_raster_no_columns)



lemma px_set_nth_fits:
  assumes "fits x y a" "0 \<le> i" "i < int (length x)" "0 \<le> j" "j < int (length y)" "0 \<le> i'" "0 \<le> j'"
  shows "px_set a j' i' v ! nat j ! nat i = (if (i', j') = (i, j) then v else a ! nat j ! nat i)"
proof -
  from fits_lengths [OF assms(1,4,5)] assms(3,5)
  have "j < int (length a)" "i < int (length (a ! nat j))"
    by simp_all
  from px_set_nth [OF assms(7,6,4,2) this] show ?thesis
    by auto
qed

lemma mixed_note_fields [simp]:
  "ms_pixels (mixed_note r s) = ms_pixels s"
  "ms_seen (mixed_note r s) = ms_seen s"
  "ms_isMandelbrot (mixed_note r s) = (ms_isMandelbrot s \<and> fst r = 1)"
  "ms_hasMandelbrot (mixed_note r s) = (ms_hasMandelbrot s \<or> fst r = 1)"
  "ms_pixels (mixed_note_late r s) = ms_pixels s"
  "ms_seen (mixed_note_late r s) = ms_seen s"
  "ms_isMandelbrot (mixed_note_late r s) = (ms_isMandelbrot s \<and> fst r = 1)"
  "ms_hasMandelbrot (mixed_note_late r s) = (ms_hasMandelbrot s \<or> fst r = 1)"
  by (simp_all add: mixed_note_def mixed_note_late_def Let_def)

lemma mscan_write_ok:
  "0 \<le> j \<Longrightarrow> j < int (length (ms_pixels s)) \<Longrightarrow> 0 \<le> i \<Longrightarrow> i < int (length (ms_pixels s ! nat j)) \<Longrightarrow>
   mscan_write j i c s = Inr (s\<lparr>ms_pixels := px_set (ms_pixels s) j i c\<rparr>)"
  by (simp add: mscan_write_def np_set2_ok)

lemma mscan_see_ok:
  "0 \<le> j \<Longrightarrow> j < int (length (ms_seen s)) \<Longrightarrow> 0 \<le> i \<Longrightarrow> i < int (length (ms_seen s ! nat j)) \<Longrightarrow>
   mscan_see j i s = Inr (s\<lparr>ms_seen := px_set (ms_seen s) j i True\<rparr>)"
  by (simp add: mscan_see_def np_set2_ok)

text \<open>Two visits, as each loop body of the mixed scan makes them.\<close>

lemma mixed_inv_two:
  assumes inv: "mixed_inv f ins x y pixels seen V s"
    and p: "0 \<le> fst p" "fst p < int (length x)" "0 \<le> snd p" "snd p < int (length y)"
    and q: "0 \<le> fst q" "fst q < int (length x)" "0 \<le> snd q" "snd q < int (length y)"
    and s': "ms_pixels s' = px_set (px_set (ms_pixels s) (snd p) (fst p) (f p)) (snd q) (fst q) (f q)"
      "ms_seen s' = px_set (px_set (ms_seen s) (snd p) (fst p) True) (snd q) (fst q) True"
      "ms_isMandelbrot s' = ((ms_isMandelbrot s \<and> ins p) \<and> ins q)"
      "ms_hasMandelbrot s' = ((ms_hasMandelbrot s \<or> ins p) \<or> ins q)"
  shows "mixed_inv f ins x y pixels seen (V \<union> {p, q}) s'"
proof -
  from inv have fp: "fits x y (ms_pixels s)" and fs: "fits x y (ms_seen s)"
    and cells: "\<And>i j. 0 \<le> i \<Longrightarrow> i < int (length x) \<Longrightarrow> 0 \<le> j \<Longrightarrow> j < int (length y) \<Longrightarrow>
        ms_pixels s ! nat j ! nat i = (if (i, j) \<in> V then f (i, j) else pixels ! nat j ! nat i) \<and>
        ms_seen s ! nat j ! nat i = ((i, j) \<in> V \<or> seen ! nat j ! nat i)"
    and fl: "ms_isMandelbrot s = (\<forall>p \<in> V. ins p)" "ms_hasMandelbrot s = (\<exists>p \<in> V. ins p)"
    by (simp_all add: mixed_inv_def)
  have fp1: "fits x y (px_set (ms_pixels s) (snd p) (fst p) (f p))"
    and fs1: "fits x y (px_set (ms_seen s) (snd p) (fst p) True)"
    using fp fs by (simp_all add: fits_px_set)
  have "fits x y (ms_pixels s')" "fits x y (ms_seen s')"
    unfolding s' using fp1 fs1 by (simp_all add: fits_px_set)
  moreover have "ms_pixels s' ! nat j ! nat i = (if (i, j) \<in> V \<union> {p, q} then f (i, j) else pixels ! nat j ! nat i) \<and>
        ms_seen s' ! nat j ! nat i = ((i, j) \<in> V \<union> {p, q} \<or> seen ! nat j ! nat i)"
    if b: "0 \<le> i" "i < int (length x)" "0 \<le> j" "j < int (length y)" for i j
  proof -
    have "ms_pixels s' ! nat j ! nat i =
        (if (fst q, snd q) = (i, j) then f q else if (fst p, snd p) = (i, j) then f p
         else ms_pixels s ! nat j ! nat i)"
      unfolding s' by (simp only: px_set_nth_fits [OF fp1 b q(1,3)] px_set_nth_fits [OF fp b p(1,3)])
    moreover have "ms_seen s' ! nat j ! nat i =
        (if (fst q, snd q) = (i, j) then True else if (fst p, snd p) = (i, j) then True
         else ms_seen s ! nat j ! nat i)"
      unfolding s' by (simp only: px_set_nth_fits [OF fs1 b q(1,3)] px_set_nth_fits [OF fs b p(1,3)])
    ultimately show ?thesis
      using cells [OF b] by (cases p; cases q) auto
  qed
  moreover have "ms_isMandelbrot s' = (\<forall>p \<in> V \<union> {p, q}. ins p)"
    "ms_hasMandelbrot s' = (\<exists>p \<in> V \<union> {p, q}. ins p)"
    unfolding s' fl by auto
  ultimately show ?thesis
    by (simp add: mixed_inv_def)
qed

lemma mixed_top_bottom_inv:
  assumes inv: "mixed_inv f ins x y pixels seen V s"
    and f: "f = (\<lambda>p. snd (calc (x ! nat (fst p)) (y ! nat (snd p))))"
    and ins: "ins = (\<lambda>p. fst (calc (x ! nat (fst p)) (y ! nat (snd p))) = 1)"
    and i: "0 \<le> i" "i < int (length x)"
    and t: "0 \<le> snd tl'" "snd tl' < int (length y)"
    and b: "0 \<le> snd br' - 1" "snd br' - 1 < int (length y)"
  shows "\<exists>s'. mixed_top_bottom calc tl' br' x y i s = Inr s'
     \<and> mixed_inv f ins x y pixels seen (V \<union> {(i, snd tl'), (i, snd br' - 1)}) s'"
proof -
  from inv have fp: "fits x y (ms_pixels s)" and fs: "fits x y (ms_seen s)"
    by (simp_all add: mixed_inv_def)
  note lp = fits_lengths [OF fp t] fits_lengths [OF fp b]
  note ls = fits_lengths [OF fs t] fits_lengths [OF fs b]
  have "\<exists>s'. mixed_top_bottom calc tl' br' x y i s = Inr s'
     \<and> ms_pixels s' = px_set (px_set (ms_pixels s) (snd tl') i (f (i, snd tl'))) (snd br' - 1) i (f (i, snd br' - 1))
     \<and> ms_seen s' = px_set (px_set (ms_seen s) (snd tl') i True) (snd br' - 1) i True
     \<and> ms_isMandelbrot s' = ((ms_isMandelbrot s \<and> ins (i, snd tl')) \<and> ins (i, snd br' - 1))
     \<and> ms_hasMandelbrot s' = ((ms_hasMandelbrot s \<or> ins (i, snd tl')) \<or> ins (i, snd br' - 1))"
    using i t b lp ls
    by (simp add: mixed_top_bottom_def Let_def np_get_ok mscan_write_ok mscan_see_ok f ins)
  then obtain s' where s': "mixed_top_bottom calc tl' br' x y i s = Inr s'"
     "ms_pixels s' = px_set (px_set (ms_pixels s) (snd tl') i (f (i, snd tl'))) (snd br' - 1) i (f (i, snd br' - 1))"
     "ms_seen s' = px_set (px_set (ms_seen s) (snd tl') i True) (snd br' - 1) i True"
     "ms_isMandelbrot s' = ((ms_isMandelbrot s \<and> ins (i, snd tl')) \<and> ins (i, snd br' - 1))"
     "ms_hasMandelbrot s' = ((ms_hasMandelbrot s \<or> ins (i, snd tl')) \<or> ins (i, snd br' - 1))"
    by blast
  have "mixed_inv f ins x y pixels seen (V \<union> {(i, snd tl'), (i, snd br' - 1)}) s'"
    by (rule mixed_inv_two [OF inv]) (use i t b s' in simp_all)
  with s'(1) show ?thesis
    by blast
qed

lemma mixed_left_right_inv:
  assumes inv: "mixed_inv f ins x y pixels seen V s"
    and f: "f = (\<lambda>p. snd (calc (x ! nat (fst p)) (y ! nat (snd p))))"
    and ins: "ins = (\<lambda>p. fst (calc (x ! nat (fst p)) (y ! nat (snd p))) = 1)"
    and j: "0 \<le> j" "j < int (length y)"
    and l: "0 \<le> fst tl'" "fst tl' < int (length x)"
    and r: "0 \<le> fst br' - 1" "fst br' - 1 < int (length x)"
  shows "\<exists>s'. mixed_left_right calc tl' br' x y j s = Inr s'
     \<and> mixed_inv f ins x y pixels seen (V \<union> {(fst tl', j), (fst br' - 1, j)}) s'"
proof -
  from inv have fp: "fits x y (ms_pixels s)" and fs: "fits x y (ms_seen s)"
    by (simp_all add: mixed_inv_def)
  note lp = fits_lengths [OF fp j]
  note ls = fits_lengths [OF fs j]
  have "\<exists>s'. mixed_left_right calc tl' br' x y j s = Inr s'
     \<and> ms_pixels s' = px_set (px_set (ms_pixels s) j (fst tl') (f (fst tl', j))) j (fst br' - 1) (f (fst br' - 1, j))
     \<and> ms_seen s' = px_set (px_set (ms_seen s) j (fst tl') True) j (fst br' - 1) True
     \<and> ms_isMandelbrot s' = ((ms_isMandelbrot s \<and> ins (fst tl', j)) \<and> ins (fst br' - 1, j))
     \<and> ms_hasMandelbrot s' = ((ms_hasMandelbrot s \<or> ins (fst tl', j)) \<or> ins (fst br' - 1, j))"
    using j l r lp ls
    by (simp add: mixed_left_right_def Let_def np_get_ok mscan_write_ok mscan_see_ok f ins)
  then obtain s' where s': "mixed_left_right calc tl' br' x y j s = Inr s'"
     "ms_pixels s' = px_set (px_set (ms_pixels s) j (fst tl') (f (fst tl', j))) j (fst br' - 1) (f (fst br' - 1, j))"
     "ms_seen s' = px_set (px_set (ms_seen s) j (fst tl') True) j (fst br' - 1) True"
     "ms_isMandelbrot s' = ((ms_isMandelbrot s \<and> ins (fst tl', j)) \<and> ins (fst br' - 1, j))"
     "ms_hasMandelbrot s' = ((ms_hasMandelbrot s \<or> ins (fst tl', j)) \<or> ins (fst br' - 1, j))"
    by blast
  have "mixed_inv f ins x y pixels seen (V \<union> {(fst tl', j), (fst br' - 1, j)}) s'"
    by (rule mixed_inv_two [OF inv]) (use j l r s' in simp_all)
  with s'(1) show ?thesis
    by blast
qed

lemma mixed_scan_char:
  assumes "fits x y pixels" "fits x y seen" "region_ok x y q" "\<not> single q"
    and f_def: "f = accel_color x y mi er smooth cs pc"
    and ins_def: "ins = accel_in_set x y mi er smooth cs pc"
  shows "\<exists>b0 b1 b2 sn.
      Accelerated_calculate_mixed (top_left q) (bottom_right q) pixels seen x y mi er smooth cs pc
        = Inr ([if (\<forall>p \<in> border_cells q. ins p) \<noteq> (\<exists>p \<in> border_cells q. ins p)
                    \<and> 3 \<le> QuadTree_cols q \<and> 3 \<le> QuadTree_rows q then 1 else 0,
                if \<not> (\<forall>p \<in> border_cells q. ins p) then 0 else 1, b0, b1, b2],
               scan_pixels f q pixels, sn)
    \<and> fits x y sn
    \<and> (\<forall>i j. 0 \<le> i \<and> i < int (length x) \<and> 0 \<le> j \<and> j < int (length y) \<longrightarrow>
          sn ! nat j ! nat i = ((i, j) \<in> border_cells q \<or> seen ! nat j ! nat i))"
proof -
  let ?calc = "\<lambda>xv yv. Accelerated_calculate xv yv mi er smooth cs pc"
  let ?tl = "top_left q" and ?br = "bottom_right q"
  let ?s0 = "\<lparr>ms_isMandelbrot = True, ms_hasMandelbrot = False, ms_border = (0, 0, 0),
               ms_pixels = pixels, ms_seen = seen\<rparr>"
  let ?V1 = "\<lambda>ds. (\<lambda>i. (i, snd ?tl)) ` set ds \<union> (\<lambda>i. (i, snd ?br - 1)) ` set ds"
  let ?V2 = "\<lambda>ds. (\<lambda>j. (fst ?tl, j)) ` set ds \<union> (\<lambda>j. (fst ?br - 1, j)) ` set ds"
  let ?is = "[fst ?tl..fst ?br - 1]" and ?js = "[snd ?tl..snd ?br - 1]"
  have f: "f = (\<lambda>p. snd (?calc (x ! nat (fst p)) (y ! nat (snd p))))"
    by (simp add: f_def accel_color_def fun_eq_iff)
  have ins: "ins = (\<lambda>p. fst (?calc (x ! nat (fst p)) (y ! nat (snd p))) = 1)"
    by (simp add: ins_def accel_in_set_def fun_eq_iff)
  from assms(3) have r: "0 \<le> fst ?tl" "fst ?tl < fst ?br" "fst ?br \<le> int (length x)"
      "0 \<le> snd ?tl" "snd ?tl < snd ?br" "snd ?br \<le> int (length y)"
    by (simp_all add: region_ok_def)
  have i0: "mixed_inv f ins x y pixels seen (?V1 []) ?s0"
    using assms(1,2) by (simp add: mixed_inv_def)
  have "\<exists>s'. for_range (mixed_top_bottom ?calc ?tl ?br x y) ?is ?s0 = Inr s'
      \<and> mixed_inv f ins x y pixels seen (?V1 ?is) s'"
  proof (rule for_range_invariant [where I = "\<lambda>ds s. mixed_inv f ins x y pixels seen (?V1 ds) s"])
    show "mixed_inv f ins x y pixels seen (?V1 []) ?s0"
      by (rule i0)
  next
    fix ds :: "int list" and i and s :: mscan
    assume inv: "mixed_inv f ins x y pixels seen (?V1 ds) s" and i: "i \<in> set ?is"
    have e: "?V1 (ds @ [i]) = ?V1 ds \<union> {(i, snd ?tl), (i, snd ?br - 1)}"
      by auto
    from i r have b: "0 \<le> i" "i < int (length x)" "0 \<le> snd ?tl" "snd ?tl < int (length y)"
        "0 \<le> snd ?br - 1" "snd ?br - 1 < int (length y)"
      by simp_all
    from mixed_top_bottom_inv [OF inv f ins b]
    show "\<exists>s'. mixed_top_bottom ?calc ?tl ?br x y i s = Inr s'
        \<and> mixed_inv f ins x y pixels seen (?V1 (ds @ [i])) s'"
      unfolding e .
  qed
  then obtain s1 where s1: "for_range (mixed_top_bottom ?calc ?tl ?br x y) ?is ?s0 = Inr s1"
      "mixed_inv f ins x y pixels seen (?V1 ?is) s1"
    by blast
  have "\<exists>s'. for_range (mixed_left_right ?calc ?tl ?br x y) ?js s1 = Inr s'
      \<and> mixed_inv f ins x y pixels seen (?V1 ?is \<union> ?V2 ?js) s'"
  proof (rule for_range_invariant [where I = "\<lambda>ds s. mixed_inv f ins x y pixels seen (?V1 ?is \<union> ?V2 ds) s"])
    show "mixed_inv f ins x y pixels seen (?V1 ?is \<union> ?V2 []) s1"
      using s1(2) by simp
  next
    fix ds :: "int list" and j and s :: mscan
    assume inv: "mixed_inv f ins x y pixels seen (?V1 ?is \<union> ?V2 ds) s" and j: "j \<in> set ?js"
    have e: "?V1 ?is \<union> ?V2 (ds @ [j]) = (?V1 ?is \<union> ?V2 ds) \<union> {(fst ?tl, j), (fst ?br - 1, j)}"
      by auto
    from j r have b: "0 \<le> j" "j < int (length y)" "0 \<le> fst ?tl" "fst ?tl < int (length x)"
        "0 \<le> fst ?br - 1" "fst ?br - 1 < int (length x)"
      by simp_all
    from mixed_left_right_inv [OF inv f ins b]
    show "\<exists>s'. mixed_left_right ?calc ?tl ?br x y j s = Inr s'
        \<and> mixed_inv f ins x y pixels seen (?V1 ?is \<union> ?V2 (ds @ [j])) s'"
      unfolding e .
  qed
  then obtain s2 where s2: "for_range (mixed_left_right ?calc ?tl ?br x y) ?js s1 = Inr s2"
      "mixed_inv f ins x y pixels seen (?V1 ?is \<union> ?V2 ?js) s2"
    by blast
  have V: "?V1 ?is \<union> ?V2 ?js = border_cells q"
    using r by (auto simp: border_cells_def cells_def)
  from s2(2) have inv: "mixed_inv f ins x y pixels seen (border_cells q) s2"
    unfolding V .
  then have fp: "fits x y (ms_pixels s2)" and fs: "fits x y (ms_seen s2)"
    and cells: "\<And>i j. 0 \<le> i \<Longrightarrow> i < int (length x) \<Longrightarrow> 0 \<le> j \<Longrightarrow> j < int (length y) \<Longrightarrow>
        ms_pixels s2 ! nat j ! nat i = (if (i, j) \<in> border_cells q then f (i, j) else pixels ! nat j ! nat i) \<and>
        ms_seen s2 ! nat j ! nat i = ((i, j) \<in> border_cells q \<or> seen ! nat j ! nat i)"
    and fl: "ms_isMandelbrot s2 = (\<forall>p \<in> border_cells q. ins p)"
      "ms_hasMandelbrot s2 = (\<exists>p \<in> border_cells q. ins p)"
    by (simp_all add: mixed_inv_def)
  have px: "ms_pixels s2 = scan_pixels f q pixels"
  proof (rule fits_ext [of x y])
    show "fits x y (ms_pixels s2)"
      by (rule fp)
    show "fits x y (scan_pixels f q pixels)"
      using assms(1) by simp
    fix i j assume b: "0 \<le> i" "i < int (length x)" "0 \<le> j" "j < int (length y)"
    show "ms_pixels s2 ! nat j ! nat i = scan_pixels f q pixels ! nat j ! nat i"
      using cells [OF b] assms(4) by (simp add: scan_pixels_nth [OF assms(1,3) b] scan_cells_def)
  qed
  obtain b0 b1 b2 where bd: "ms_border s2 = (b0, b1, b2)"
    by (cases "ms_border s2")
  from assms(4) have ns: "\<not> (snd ?br - snd ?tl = 1 \<and> fst ?br - fst ?tl = 1)"
    by (simp add: single_def QuadTree_rows_def QuadTree_cols_def)
  have "Accelerated_calculate_mixed ?tl ?br pixels seen x y mi er smooth cs pc
      = Inr ([if (\<forall>p \<in> border_cells q. ins p) \<noteq> (\<exists>p \<in> border_cells q. ins p)
                    \<and> 3 \<le> QuadTree_cols q \<and> 3 \<le> QuadTree_rows q then 1 else 0,
                if \<not> (\<forall>p \<in> border_cells q. ins p) then 0 else 1, b0, b1, b2],
               scan_pixels f q pixels, ms_seen s2)"
    unfolding Accelerated_calculate_mixed_def Let_def
    by (subst if_not_P [OF ns]) (simp add: s1(1) s2(1) bd fl px QuadTree_cols_def QuadTree_rows_def)
  with fs cells show ?thesis
    by blast
qed

text \<open>
  A turn of the mixed queue loop on a region without a member on its border: the border
  is written and marked seen, the region is neither split nor filled.
\<close>

lemma mixed_turn_no_member:
  assumes "fits (m_x m) (m_y m) pixels" "fits (m_x m) (m_y m) seen" "region_ok (m_x m) (m_y m) q"
    and "\<not> single q" "\<forall>p \<in> border_cells q. \<not> m_in_set m p"
  shows "\<exists>sn. mixed_quadtree_loop m (q # queue) (pixels, seen)
        = mixed_quadtree_loop m queue (scan_pixels (m_color m) q pixels, sn)
     \<and> fits (m_x m) (m_y m) sn
     \<and> (\<forall>i j. 0 \<le> i \<and> i < int (length (m_x m)) \<and> 0 \<le> j \<and> j < int (length (m_y m)) \<longrightarrow>
          sn ! nat j ! nat i = ((i, j) \<in> border_cells q \<or> seen ! nat j ! nat i))"
proof -
  from assms(3) have "top_left q \<in> border_cells q"
    by (cases "top_left q") (auto simp: border_cells_def cells_def region_ok_def)
  with assms(5) have n: "\<not> (\<forall>p \<in> border_cells q. m_in_set m p)" "\<not> (\<exists>p \<in> border_cells q. m_in_set m p)"
    by blast+
  from mixed_scan_char [OF assms(1-4) m_color_def m_in_set_def]
  obtain b0 b1 b2 sn where c: "m_calculate_mixed m q pixels seen
        = Inr ([0, 0, b0, b1, b2], scan_pixels (m_color m) q pixels, sn)"
    and sn: "fits (m_x m) (m_y m) sn"
      "\<forall>i j. 0 \<le> i \<and> i < int (length (m_x m)) \<and> 0 \<le> j \<and> j < int (length (m_y m)) \<longrightarrow>
          sn ! nat j ! nat i = ((i, j) \<in> border_cells q \<or> seen ! nat j ! nat i)"
    unfolding m_calculate_mixed_def using n by auto
  have "mixed_quadtree_loop m (q # queue) (pixels, seen)
        = mixed_quadtree_loop m queue (scan_pixels (m_color m) q pixels, sn)"
    by (simp add: c)
  with sn show ?thesis
    by blast
qed

declare mixed_quadtree_loop.simps(2) [simp del]

lemma raster_pixel_eval:
  assumes "fits x y a" "fits x y seen" "0 \<le> i" "i < int (length y)" "0 \<le> j" "j < int (length x)"
  shows "raster_pixel calc seen x y i j a =
     Inr (if seen ! nat i ! nat j then a else px_set a i j (snd (calc (x ! nat j) (y ! nat i))))"
proof -
  note ls = fits_lengths [OF assms(2,3,4)] and la = fits_lengths [OF assms(1,3,4)]
  from ls(1) assms(3,4) obtain row rows where s: "seen = row # rows"
    by (cases seen) auto
  with assms(2) have "length row = length x"
    by (simp add: fits_def)
  with s assms(5,6) have sh: "shape1 seen \<noteq> 0"
    by (auto simp: shape1_def)
  have g: "np_get2 seen i j = Inr (seen ! nat i ! nat j)"
    using assms(3-6) ls by (simp add: np_get2_def np_get_ok)
  show ?thesis
    using sh assms(3-6) la by (simp add: raster_pixel_def g np_get_ok np_set2_ok)
qed

lemma compute_raster_char:
  assumes "fits x y pixels" "fits x y seen"
  shows "\<exists>r. compute_raster pixels seen x y mi er smooth cs pc = Inr r \<and> fits x y r
     \<and> (\<forall>i j. 0 \<le> i \<and> i < int (length x) \<and> 0 \<le> j \<and> j < int (length y) \<longrightarrow>
          r ! nat j ! nat i = (if seen ! nat j ! nat i then pixels ! nat j ! nat i
                               else accel_color x y mi er smooth cs pc (i, j)))"
proof -
  let ?calc = "\<lambda>xv yv. Accelerated_calculate xv yv mi er smooth cs pc"
  let ?f = "accel_color x y mi er smooth cs pc"
  let ?cols = "[0..int (length x) - 1]" and ?rows = "[0..int (length y) - 1]"
  define rinv where "rinv V a \<longleftrightarrow> fits x y a \<and>
     (\<forall>i j. 0 \<le> i \<and> i < int (length x) \<and> 0 \<le> j \<and> j < int (length y) \<longrightarrow>
        a ! nat j ! nat i = (if (i, j) \<in> V \<and> \<not> seen ! nat j ! nat i then ?f (i, j)
                             else pixels ! nat j ! nat i))" for V a
  have step: "\<exists>a'. raster_pixel ?calc seen x y r c a = Inr a' \<and> rinv (V \<union> {(c, r)}) a'"
    if inv: "rinv V a" and r: "0 \<le> r" "r < int (length y)" and c: "0 \<le> c" "c < int (length x)"
    for V a r c
  proof -
    from inv have fa: "fits x y a"
      by (simp add: rinv_def)
    let ?a' = "if seen ! nat r ! nat c then a else px_set a r c (snd (?calc (x ! nat c) (y ! nat r)))"
    have "rinv (V \<union> {(c, r)}) ?a'"
      unfolding rinv_def
    proof (intro conjI allI impI)
      show "fits x y ?a'"
        using fa by (simp add: fits_px_set)
      fix i j assume b: "0 \<le> i \<and> i < int (length x) \<and> 0 \<le> j \<and> j < int (length y)"
      then have b': "0 \<le> i" "i < int (length x)" "0 \<le> j" "j < int (length y)"
        by simp_all
      from inv b have old: "a ! nat j ! nat i = (if (i, j) \<in> V \<and> \<not> seen ! nat j ! nat i then ?f (i, j)
                             else pixels ! nat j ! nat i)"
        by (simp add: rinv_def)
      show "?a' ! nat j ! nat i = (if (i, j) \<in> V \<union> {(c, r)} \<and> \<not> seen ! nat j ! nat i then ?f (i, j)
                             else pixels ! nat j ! nat i)"
        using old by (auto simp: px_set_nth_fits [OF fa b' c(1) r(1)] accel_color_def)
    qed
    with raster_pixel_eval [OF fa assms(2) r c, of ?calc] show ?thesis
      by simp
  qed
  have row: "\<exists>a'. for_range (\<lambda>j. raster_pixel ?calc seen x y r j) ?cols a = Inr a'
       \<and> rinv (V \<union> (\<lambda>c. (c, r)) ` set ?cols) a'"
    if inv: "rinv V a" and r: "0 \<le> r" "r < int (length y)" for V a r
  proof (rule for_range_invariant [where I = "\<lambda>ds a. rinv (V \<union> (\<lambda>c. (c, r)) ` set ds) a"])
    show "rinv (V \<union> (\<lambda>c. (c, r)) ` set []) a"
      using inv by simp
  next
    fix ds :: "int list" and c and a :: "rgb list list"
    assume i: "rinv (V \<union> (\<lambda>c. (c, r)) ` set ds) a" and c: "c \<in> set ?cols"
    have e: "V \<union> (\<lambda>c. (c, r)) ` set (ds @ [c]) = (V \<union> (\<lambda>c. (c, r)) ` set ds) \<union> {(c, r)}"
      by auto
    from c have "0 \<le> c" "c < int (length x)"
      by simp_all
    from step [OF i r this]
    show "\<exists>a'. raster_pixel ?calc seen x y r c a = Inr a' \<and> rinv (V \<union> (\<lambda>c. (c, r)) ` set (ds @ [c])) a'"
      unfolding e .
  qed
  let ?W = "\<lambda>ds. {p. fst p \<in> set ?cols \<and> snd p \<in> set ds}"
  have "\<exists>a'. for_range (\<lambda>i. for_range (\<lambda>j. raster_pixel ?calc seen x y i j) ?cols) ?rows pixels = Inr a'
       \<and> rinv (?W ?rows) a'"
  proof (rule for_range_invariant [where I = "\<lambda>ds a. rinv (?W ds) a"])
    show "rinv (?W []) pixels"
      using assms(1) by (simp add: rinv_def)
  next
    fix ds :: "int list" and r and a :: "rgb list list"
    assume i: "rinv (?W ds) a" and r: "r \<in> set ?rows"
    have e: "?W (ds @ [r]) = ?W ds \<union> (\<lambda>c. (c, r)) ` set ?cols"
      by auto
    from r have "0 \<le> r" "r < int (length y)"
      by simp_all
    from row [OF i this]
    show "\<exists>a'. for_range (\<lambda>j. raster_pixel ?calc seen x y r j) ?cols a = Inr a' \<and> rinv (?W (ds @ [r])) a'"
      unfolding e .
  qed
  then obtain r where r: "compute_raster pixels seen x y mi er smooth cs pc = Inr r" "rinv (?W ?rows) r"
    by (auto simp: compute_raster_def Let_def)
  from r(2) have "fits x y r"
    by (simp add: rinv_def)
  moreover have "r ! nat j ! nat i = (if seen ! nat j ! nat i then pixels ! nat j ! nat i else ?f (i, j))"
    if "0 \<le> i \<and> i < int (length x) \<and> 0 \<le> j \<and> j < int (length y)" for i j
  proof -
    from that have "(i, j) \<in> ?W ?rows"
      by simp
    with r(2) that show ?thesis
      unfolding rinv_def by auto
  qed
  ultimately show ?thesis
    using r(1) by blast
qed

lemma init_in_set [simp]:
  "m_in_set (AcceleratedMandelbrot_init x y mi er cs smooth raster mixed fast)
     = accel_in_set x y mi er smooth cs True"
  by (simp add: AcceleratedMandelbrot_init_def m_in_set_def)

text \<open>
  The \<open>5 \<times> 5\<close> image over the grid \<open>x = [-15, -10, -5, 0, 5]\<close>, \<open>y = [15, 10, 5, 0, 5]\<close>: the
  pixel in column 3, row 3 is the point \<open>0\<close>, a member; every other pixel escapes at the
  first step.
\<close>

lemma grid_5x5_out:
  assumes "0 \<le> i" "i < 5" "0 \<le> j" "j < 5" "(i, j) \<noteq> (3, 3)"
  shows "Accelerated_calculate ([- 15, - 10, - 5, 0, 5] ! nat i) ([15, 10, 5, 0, 5] ! nat j)
           4 2 False Accelerated_grayscale True = (0, (127, 127, 127))"
proof -
  from assms(1,2) have i: "i = 0 \<or> i = 1 \<or> i = 2 \<or> i = 3 \<or> i = 4"
    by arith
  from assms(3,4) have j: "j = 0 \<or> j = 1 \<or> j = 2 \<or> j = 3 \<or> j = 4"
    by arith
  from i j assms(5) show ?thesis
    by (elim disjE) (simp_all add: accel_gray_out in_main_body_def Let_def)
qed

lemma grid_5x5_in:
  "Accelerated_calculate ([- 15, - 10, - 5, 0, 5] ! nat 3) ([15, 10, 5, 0, 5] ! nat 3)
     4 2 False Accelerated_grayscale True = (1, (255, 255, 255))"
  by (simp add: accel_gray_in main_body_samples)

lemma grid_5x5_border:
  assumes "region_ok [- 15, - 10, - 5, 0, 5] [15, 10, 5, 0, 5] q" "(3, 3) \<notin> border_cells q"
    and "p \<in> border_cells q"
  shows "accel_color [- 15, - 10, - 5, 0, 5] [15, 10, 5, 0, 5] 4 2 False Accelerated_grayscale True p
           = (127, 127, 127)
       \<and> \<not> accel_in_set [- 15, - 10, - 5, 0, 5] [15, 10, 5, 0, 5] 4 2 False Accelerated_grayscale True p"
proof -
  obtain i j where p: "p = (i, j)"
    by (cases p)
  from assms(1,3) p have b: "0 \<le> i" "i < 5" "0 \<le> j" "j < 5"
    by (auto simp: region_ok_def border_cells_def cells_def)
  from assms(2,3) p have "(i, j) \<noteq> (3, 3)"
    by auto
  from grid_5x5_out [OF b this] show ?thesis
    by (simp add: p accel_color_def accel_in_set_def)
qed



section \<open>Properties of the non-accelerated border scan\<close>

lemma normal_calculate_memo:
  assumes "memo_ok mi er sm cs pc memo"
  shows "\<exists>memo'. Normal_calculate xv yv mi er sm cs pc memo
           = (fst (Normal_calculate xv yv mi er sm cs pc None), memo')
       \<and> memo_ok mi er sm cs pc memo'"
proof (cases memo)
  case None
  then show ?thesis
    by (simp add: Normal_calculate_def memo_ok_def Let_def)
next
  case (Some m)
  show ?thesis
  proof (cases "m (xv, yv)")
    case None
    with Some assms show ?thesis
      by (auto simp: Normal_calculate_def memo_ok_def Let_def)
  next
    case (Some cached)
    from \<open>memo = Some m\<close> assms have "\<forall>k v. m k = Some v \<longrightarrow>
        v = fst (Normal_calculate (fst k) (snd k) mi er sm cs pc None)"
      by (simp add: memo_ok_def)
    from this [rule_format, of "(xv, yv)" cached] Some
    have "cached = fst (Normal_calculate xv yv mi er sm cs pc None)"
      by simp
    with Some \<open>memo = Some m\<close> assms show ?thesis
      by (auto simp: Normal_calculate_def)
  qed
qed

lemma nscan_call_eval:
  assumes "0 \<le> i" "i < int (length x)" "0 \<le> j" "j < int (length y)"
    and "memo_ok mi er sm cs pc (ns_memo s)"
  shows "\<exists>m'. nscan_call x y mi er sm cs pc i j s
           = Inr (normal_color x y mi er sm cs pc (i, j),
                  s\<lparr>ns_memo := m', ns_calls := ns_calls s @ [(i, j)]\<rparr>)
       \<and> memo_ok mi er sm cs pc m'"
proof -
  from normal_calculate_memo [OF assms(5), of "x ! nat i" "y ! nat j"]
  obtain m' where m': "Normal_calculate (x ! nat i) (y ! nat j) mi er sm cs pc (ns_memo s)
           = (fst (Normal_calculate (x ! nat i) (y ! nat j) mi er sm cs pc None), m')"
      "memo_ok mi er sm cs pc m'"
    by blast
  then show ?thesis
    by (intro exI [of _ m']) (simp add: nscan_call_ok [OF assms(1-4)] normal_color_def)
qed

lemma normal_compare_split [simp]:
  "ns_split (normal_compare c s) = (ns_split s \<or> differs (ns_border s) c)"
  by (simp add: normal_compare_def)

text \<open>A call for a pixel, the comparison \<open>g\<close> and the write, in either order.\<close>

lemma normal_visit:
  assumes b: "0 \<le> i" "i < int (length x)" "0 \<le> j" "j < int (length y)"
    and s: "fits x y (ns_pixels s)" "memo_ok mi er sm cs pc (ns_memo s)"
  shows "\<exists>t. nscan_call x y mi er sm cs pc i j s = Inr (normal_color x y mi er sm cs pc (i, j), t)
      \<and> ns_pixels t = ns_pixels s \<and> ns_split t = ns_split s \<and> ns_border t = ns_border s
      \<and> memo_ok mi er sm cs pc (ns_memo t)"
  using nscan_call_eval [OF b s(2)] by auto

lemma nscan_write_eval:
  assumes b: "0 \<le> i" "i < int (length x)" "0 \<le> j" "j < int (length y)"
    and s: "fits x y (ns_pixels s)"
  shows "\<exists>t. nscan_write j i c s = Inr t
      \<and> ns_pixels t = px_set (ns_pixels s) j i c \<and> ns_split t = ns_split s
      \<and> ns_border t = ns_border s \<and> ns_memo t = ns_memo s"
  using b fits_lengths [OF s b(3,4)] by (simp add: nscan_write_ok)

lemma differs_Some [simp]: "differs (Some b) c \<longleftrightarrow> b \<noteq> c"
  by (simp add: differs_def)

lemma normal_inv_two:
  assumes inv: "normal_inv f ok c0 x y pixels V s"
    and p: "0 \<le> fst p" "0 \<le> snd p" and q: "0 \<le> fst q" "0 \<le> snd q"
    and s': "ns_pixels s' = px_set (px_set (ns_pixels s) (snd p) (fst p) (f p)) (snd q) (fst q) (f q)"
      "ns_split s' = ((ns_split s \<or> c0 \<noteq> f p) \<or> c0 \<noteq> f q)"
      "ns_border s' = Some c0" "ok (ns_memo s')"
  shows "normal_inv f ok c0 x y pixels (V \<union> {p, q}) s'"
proof -
  from inv have fp: "fits x y (ns_pixels s)"
    and cells: "\<And>i j. 0 \<le> i \<Longrightarrow> i < int (length x) \<Longrightarrow> 0 \<le> j \<Longrightarrow> j < int (length y) \<Longrightarrow>
        ns_pixels s ! nat j ! nat i = (if (i, j) \<in> V then f (i, j) else pixels ! nat j ! nat i)"
    and fl: "ns_split s = (\<exists>p \<in> V. f p \<noteq> c0)"
    by (simp_all add: normal_inv_def)
  have fp1: "fits x y (px_set (ns_pixels s) (snd p) (fst p) (f p))"
    using fp by (simp add: fits_px_set)
  have "fits x y (ns_pixels s')"
    unfolding s' using fp1 by (simp add: fits_px_set)
  moreover have "ns_pixels s' ! nat j ! nat i = (if (i, j) \<in> V \<union> {p, q} then f (i, j) else pixels ! nat j ! nat i)"
    if b: "0 \<le> i" "i < int (length x)" "0 \<le> j" "j < int (length y)" for i j
  proof -
    have "ns_pixels s' ! nat j ! nat i =
        (if (fst q, snd q) = (i, j) then f q else if (fst p, snd p) = (i, j) then f p
         else ns_pixels s ! nat j ! nat i)"
      unfolding s' by (simp only: px_set_nth_fits [OF fp1 b q] px_set_nth_fits [OF fp b p])
    then show ?thesis
      using cells [OF b] by (cases p; cases q) auto
  qed
  moreover have "ns_split s' = (\<exists>p \<in> V \<union> {p, q}. f p \<noteq> c0)"
    unfolding s' fl by auto
  ultimately show ?thesis
    using s'(3,4) by (simp add: normal_inv_def)
qed

text \<open>The first turn of the first loop sets the border colour.\<close>

lemma normal_top_bottom_first:
  assumes i: "0 \<le> i" "i < int (length x)"
    and t: "0 \<le> snd (top_left q)" "snd (top_left q) < int (length y)"
    and b: "0 \<le> snd (bottom_right q) - 1" "snd (bottom_right q) - 1 < int (length y)"
    and s: "fits x y pixels" "memo_ok mi er sm cs pc memo"
  shows "\<exists>s'. normal_top_bottom q x y mi er sm cs pc i
           \<lparr>ns_split = False, ns_border = None, ns_pixels = pixels, ns_memo = memo, ns_calls = []\<rparr>
           = Inr s'
     \<and> normal_inv (normal_color x y mi er sm cs pc) (memo_ok mi er sm cs pc)
          (normal_color x y mi er sm cs pc (i, snd (top_left q))) x y pixels
          {(i, snd (top_left q)), (i, snd (bottom_right q) - 1)} s'"
proof -
  let ?f = "normal_color x y mi er sm cs pc"
  let ?s0 = "\<lparr>ns_split = False, ns_border = None, ns_pixels = pixels, ns_memo = memo, ns_calls = []\<rparr>"
  let ?t = "snd (top_left q)" and ?b = "snd (bottom_right q) - 1"
  from normal_visit [OF i t, of ?s0 mi er sm cs pc] s
  obtain s1 where s1: "nscan_call x y mi er sm cs pc i ?t ?s0 = Inr (?f (i, ?t), s1)"
      "ns_pixels s1 = pixels" "ns_split s1 = False" "ns_border s1 = None"
      "memo_ok mi er sm cs pc (ns_memo s1)"
    by auto
  from nscan_write_eval [OF i t, of s1 "?f (i, ?t)"] s(1) s1
  obtain s2 where s2: "nscan_write ?t i (?f (i, ?t)) s1 = Inr s2"
      "ns_pixels s2 = px_set pixels ?t i (?f (i, ?t))" "ns_split s2 = False"
      "memo_ok mi er sm cs pc (ns_memo s2)"
    by auto
  let ?s2 = "s2\<lparr>ns_border := Some (?f (i, ?t))\<rparr>"
  have f2: "fits x y (ns_pixels ?s2)"
    using s(1) s2(2) by (simp add: fits_px_set)
  from normal_visit [OF i b, of ?s2 mi er sm cs pc] f2 s2
  obtain s3 where s3: "nscan_call x y mi er sm cs pc i ?b ?s2 = Inr (?f (i, ?b), s3)"
      "ns_pixels s3 = px_set pixels ?t i (?f (i, ?t))" "ns_split s3 = False"
      "ns_border s3 = Some (?f (i, ?t))" "memo_ok mi er sm cs pc (ns_memo s3)"
    by auto
  let ?s3 = "s3\<lparr>ns_split := (ns_split s3 \<or> differs (ns_border s3) (?f (i, ?b)))\<rparr>"
  have f3: "fits x y (ns_pixels ?s3)"
    using s(1) s3(2) by (simp add: fits_px_set)
  from nscan_write_eval [OF i b f3, of "?f (i, ?b)"] s3
  obtain s4 where s4: "nscan_write ?b i (?f (i, ?b)) ?s3 = Inr s4"
      "ns_pixels s4 = px_set (px_set pixels ?t i (?f (i, ?t))) ?b i (?f (i, ?b))"
      "ns_split s4 = (?f (i, ?t) \<noteq> ?f (i, ?b))" "ns_border s4 = Some (?f (i, ?t))"
      "memo_ok mi er sm cs pc (ns_memo s4)"
    by auto
  have run: "normal_top_bottom q x y mi er sm cs pc i ?s0 = Inr s4"
    by (simp add: normal_top_bottom_def Let_def s1(1) s2(1) s3(1) s4(1))
  have "normal_inv ?f (memo_ok mi er sm cs pc) (?f (i, ?t)) x y pixels
          ({} \<union> {(i, ?t), (i, ?b)}) s4"
  proof (rule normal_inv_two [where s = "?s0\<lparr>ns_border := Some (?f (i, ?t))\<rparr>"])
    show "normal_inv ?f (memo_ok mi er sm cs pc) (?f (i, ?t)) x y pixels {}
        (?s0\<lparr>ns_border := Some (?f (i, ?t))\<rparr>)"
      using s by (simp add: normal_inv_def)
  qed (use i t b s4 in simp_all)
  with run show ?thesis
    by simp
qed

lemma normal_top_bottom_inv:
  assumes inv: "normal_inv (normal_color x y mi er sm cs pc) (memo_ok mi er sm cs pc) c0 x y pixels V s"
    and i: "0 \<le> i" "i < int (length x)"
    and t: "0 \<le> snd (top_left q)" "snd (top_left q) < int (length y)"
    and b: "0 \<le> snd (bottom_right q) - 1" "snd (bottom_right q) - 1 < int (length y)"
  shows "\<exists>s'. normal_top_bottom q x y mi er sm cs pc i s = Inr s'
     \<and> normal_inv (normal_color x y mi er sm cs pc) (memo_ok mi er sm cs pc) c0 x y pixels
          (V \<union> {(i, snd (top_left q)), (i, snd (bottom_right q) - 1)}) s'"
proof -
  let ?f = "normal_color x y mi er sm cs pc"
  let ?t = "snd (top_left q)" and ?b = "snd (bottom_right q) - 1"
  from inv have s: "fits x y (ns_pixels s)" "memo_ok mi er sm cs pc (ns_memo s)"
      "ns_border s = Some c0"
    by (simp_all add: normal_inv_def)
  from normal_visit [OF i t s(1,2)]
  obtain s1 where s1: "nscan_call x y mi er sm cs pc i ?t s = Inr (?f (i, ?t), s1)"
      "ns_pixels s1 = ns_pixels s" "ns_split s1 = ns_split s" "ns_border s1 = ns_border s"
      "memo_ok mi er sm cs pc (ns_memo s1)"
    by auto
  let ?s1 = "normal_compare (?f (i, ?t)) s1"
  have f1: "fits x y (ns_pixels ?s1)"
    using s(1) s1(2) by simp
  from nscan_write_eval [OF i t f1, of "?f (i, ?t)"] s1 s(3)
  obtain s2 where s2: "nscan_write ?t i (?f (i, ?t)) ?s1 = Inr s2"
      "ns_pixels s2 = px_set (ns_pixels s) ?t i (?f (i, ?t))"
      "ns_split s2 = (ns_split s \<or> c0 \<noteq> ?f (i, ?t))" "ns_border s2 = Some c0"
      "memo_ok mi er sm cs pc (ns_memo s2)"
    by auto
  have f2: "fits x y (ns_pixels s2)"
    using s(1) s2(2) by (simp add: fits_px_set)
  from normal_visit [OF i b f2 s2(5)] s2
  obtain s3 where s3: "nscan_call x y mi er sm cs pc i ?b s2 = Inr (?f (i, ?b), s3)"
      "ns_pixels s3 = px_set (ns_pixels s) ?t i (?f (i, ?t))"
      "ns_split s3 = (ns_split s \<or> c0 \<noteq> ?f (i, ?t))" "ns_border s3 = Some c0"
      "memo_ok mi er sm cs pc (ns_memo s3)"
    by auto
  let ?s3 = "normal_compare (?f (i, ?b)) s3"
  have f3: "fits x y (ns_pixels ?s3)"
    using f2 s2(2) s3(2) by simp
  from nscan_write_eval [OF i b f3, of "?f (i, ?b)"] s3
  obtain s4 where s4: "nscan_write ?b i (?f (i, ?b)) ?s3 = Inr s4"
      "ns_pixels s4 = px_set (px_set (ns_pixels s) ?t i (?f (i, ?t))) ?b i (?f (i, ?b))"
      "ns_split s4 = ((ns_split s \<or> c0 \<noteq> ?f (i, ?t)) \<or> c0 \<noteq> ?f (i, ?b))" "ns_border s4 = Some c0"
      "memo_ok mi er sm cs pc (ns_memo s4)"
    by auto
  have run: "normal_top_bottom q x y mi er sm cs pc i s = Inr s4"
    by (simp add: normal_top_bottom_def Let_def s(3) s1(1) s2(1) s3(1) s4(1))
  have "normal_inv ?f (memo_ok mi er sm cs pc) c0 x y pixels (V \<union> {(i, ?t), (i, ?b)}) s4"
    by (rule normal_inv_two [OF inv]) (use i t b s4 in simp_all)
  with run show ?thesis
    by simp
qed

lemma normal_left_right_inv:
  assumes inv: "normal_inv (normal_color x y mi er sm cs pc) (memo_ok mi er sm cs pc) c0 x y pixels V s"
    and j: "0 \<le> j" "j < int (length y)"
    and l: "0 \<le> fst (top_left q)" "fst (top_left q) < int (length x)"
    and r: "0 \<le> fst (bottom_right q) - 1" "fst (bottom_right q) - 1 < int (length x)"
  shows "\<exists>s'. normal_left_right q x y mi er sm cs pc j s = Inr s'
     \<and> normal_inv (normal_color x y mi er sm cs pc) (memo_ok mi er sm cs pc) c0 x y pixels
          (V \<union> {(fst (top_left q), j), (fst (bottom_right q) - 1, j)}) s'"
proof -
  let ?f = "normal_color x y mi er sm cs pc"
  let ?l = "fst (top_left q)" and ?r = "fst (bottom_right q) - 1"
  from inv have s: "fits x y (ns_pixels s)" "memo_ok mi er sm cs pc (ns_memo s)"
      "ns_border s = Some c0"
    by (simp_all add: normal_inv_def)
  from normal_visit [OF l j s(1,2)]
  obtain s1 where s1: "nscan_call x y mi er sm cs pc ?l j s = Inr (?f (?l, j), s1)"
      "ns_pixels s1 = ns_pixels s" "ns_split s1 = ns_split s" "ns_border s1 = ns_border s"
      "memo_ok mi er sm cs pc (ns_memo s1)"
    by auto
  have f1: "fits x y (ns_pixels s1)"
    using s(1) s1(2) by simp
  from nscan_write_eval [OF l j f1, of "?f (?l, j)"] s1 s(3)
  obtain s2 where s2: "nscan_write j ?l (?f (?l, j)) s1 = Inr s2"
      "ns_pixels s2 = px_set (ns_pixels s) j ?l (?f (?l, j))"
      "ns_split s2 = ns_split s" "ns_border s2 = Some c0"
      "memo_ok mi er sm cs pc (ns_memo s2)"
    by auto
  let ?s2 = "normal_compare (?f (?l, j)) s2"
  have f2: "fits x y (ns_pixels ?s2)"
    using s(1) s2(2) by (simp add: fits_px_set)
  have m2: "memo_ok mi er sm cs pc (ns_memo ?s2)"
    using s2(5) by simp
  from normal_visit [OF r j f2 m2] s2
  obtain s3 where s3: "nscan_call x y mi er sm cs pc ?r j ?s2 = Inr (?f (?r, j), s3)"
      "ns_pixels s3 = px_set (ns_pixels s) j ?l (?f (?l, j))"
      "ns_split s3 = (ns_split s \<or> c0 \<noteq> ?f (?l, j))" "ns_border s3 = Some c0"
      "memo_ok mi er sm cs pc (ns_memo s3)"
    by auto
  have f3: "fits x y (ns_pixels s3)"
    using s(1) s3(2) by (simp add: fits_px_set)
  from nscan_write_eval [OF r j f3, of "?f (?r, j)"] s3
  obtain s4 where s4: "nscan_write j ?r (?f (?r, j)) s3 = Inr s4"
      "ns_pixels s4 = px_set (px_set (ns_pixels s) j ?l (?f (?l, j))) j ?r (?f (?r, j))"
      "ns_split s4 = (ns_split s \<or> c0 \<noteq> ?f (?l, j))" "ns_border s4 = Some c0"
      "memo_ok mi er sm cs pc (ns_memo s4)"
    by auto
  let ?s4 = "normal_compare (?f (?r, j)) s4"
  have run: "normal_left_right q x y mi er sm cs pc j s = Inr ?s4"
    by (simp add: normal_left_right_def Let_def s1(1) s2(1) s3(1) s4(1))
  have "normal_inv ?f (memo_ok mi er sm cs pc) c0 x y pixels (V \<union> {(?l, j), (?r, j)}) ?s4"
    by (rule normal_inv_two [OF inv]) (use j l r s4 in simp_all)
  with run show ?thesis
    by simp
qed

lemma normal_scan_char:
  assumes "fits x y pixels" "region_ok x y q" "memo_ok mi er sm cs pc memo"
  shows "\<exists>m calls.
      Normal_calculate_quadtree q pixels x y mi er sm cs pc memo
        = Inr ((3 < QuadTree_cols q \<and> 3 < QuadTree_rows q
                  \<and> (\<exists>p \<in> border_cells q. normal_color x y mi er sm cs pc p
                                            \<noteq> normal_color x y mi er sm cs pc (top_left q)),
                Some (normal_color x y mi er sm cs pc (top_left q))),
               scan_pixels (normal_color x y mi er sm cs pc) q pixels, m, calls)
    \<and> memo_ok mi er sm cs pc m"
proof (cases "single q")
  case True
  let ?s0 = "\<lparr>ns_split = False, ns_border = None, ns_pixels = pixels, ns_memo = memo, ns_calls = []\<rparr>"
  from assms(2) True have b: "0 \<le> fst (top_left q)" "fst (top_left q) < int (length x)"
      "0 \<le> snd (top_left q)" "snd (top_left q) < int (length y)"
    by (simp_all add: region_ok_def)
  from nscan_call_eval [OF b, of mi er sm cs pc ?s0] assms(3)
  obtain m' where m': "nscan_call x y mi er sm cs pc (fst (top_left q)) (snd (top_left q)) ?s0
           = Inr (normal_color x y mi er sm cs pc (top_left q),
                  ?s0\<lparr>ns_memo := m', ns_calls := ns_calls ?s0 @ [top_left q]\<rparr>)"
      "memo_ok mi er sm cs pc m'"
    by auto
  from True have d: "\<not> 3 < QuadTree_cols q" "QuadTree_rows q = 1 \<and> QuadTree_cols q = 1"
    by (simp_all add: single_def)
  show ?thesis
    unfolding Normal_calculate_quadtree_def Let_def
    by (subst if_P [OF d(2)]) (simp add: m' d(1) scan_pixels_def True)
next
  case False
  let ?f = "normal_color x y mi er sm cs pc" and ?ok = "memo_ok mi er sm cs pc"
  let ?tl = "top_left q" and ?br = "bottom_right q"
  let ?t = "snd ?tl" and ?b = "snd ?br - 1" and ?l = "fst ?tl" and ?r = "fst ?br - 1"
  let ?s0 = "\<lparr>ns_split = False, ns_border = None, ns_pixels = pixels, ns_memo = memo, ns_calls = []\<rparr>"
  let ?V0 = "{(?l, ?t), (?l, ?b)}"
  let ?V1 = "\<lambda>ds. (\<lambda>i. (i, ?t)) ` set ds \<union> (\<lambda>i. (i, ?b)) ` set ds"
  let ?V2 = "\<lambda>ds. (\<lambda>j. (?l, j)) ` set ds \<union> (\<lambda>j. (?r, j)) ` set ds"
  let ?is = "[?l + 1..?r]" and ?js = "[?t..?b]"
  let ?c0 = "?f (?l, ?t)"
  from assms(2) have r: "0 \<le> ?l" "?l < fst ?br" "fst ?br \<le> int (length x)"
      "0 \<le> ?t" "?t < snd ?br" "snd ?br \<le> int (length y)"
    by (simp_all add: region_ok_def)
  have rows: "0 \<le> ?t" "?t < int (length y)" "0 \<le> ?b" "?b < int (length y)"
    and cols: "0 \<le> ?l" "?l < int (length x)" "0 \<le> ?r" "?r < int (length x)"
    using r by simp_all
  have up: "[?l..?r] = ?l # ?is"
    using r(2) by (simp add: upto_rec1)
  from normal_top_bottom_first [OF cols(1,2) rows assms(1,3)]
  obtain s1 where s1: "normal_top_bottom q x y mi er sm cs pc ?l ?s0 = Inr s1"
      "normal_inv ?f ?ok ?c0 x y pixels ?V0 s1"
    by blast
  have "\<exists>s'. for_range (normal_top_bottom q x y mi er sm cs pc) ?is s1 = Inr s'
      \<and> normal_inv ?f ?ok ?c0 x y pixels (?V0 \<union> ?V1 ?is) s'"
  proof (rule for_range_invariant [where I = "\<lambda>ds s. normal_inv ?f ?ok ?c0 x y pixels (?V0 \<union> ?V1 ds) s"])
    show "normal_inv ?f ?ok ?c0 x y pixels (?V0 \<union> ?V1 []) s1"
      using s1(2) by simp
  next
    fix ds :: "int list" and i and s :: nscan
    assume inv: "normal_inv ?f ?ok ?c0 x y pixels (?V0 \<union> ?V1 ds) s" and i: "i \<in> set ?is"
    have e: "?V0 \<union> ?V1 (ds @ [i]) = (?V0 \<union> ?V1 ds) \<union> {(i, ?t), (i, ?b)}"
      by auto
    from i r have b: "0 \<le> i" "i < int (length x)"
      by simp_all
    from normal_top_bottom_inv [OF inv b rows]
    show "\<exists>s'. normal_top_bottom q x y mi er sm cs pc i s = Inr s'
        \<and> normal_inv ?f ?ok ?c0 x y pixels (?V0 \<union> ?V1 (ds @ [i])) s'"
      unfolding e .
  qed
  then obtain s2 where s2: "for_range (normal_top_bottom q x y mi er sm cs pc) ?is s1 = Inr s2"
      "normal_inv ?f ?ok ?c0 x y pixels (?V0 \<union> ?V1 ?is) s2"
    by blast
  have loop1: "for_range (normal_top_bottom q x y mi er sm cs pc) [?l..?r] ?s0 = Inr s2"
    unfolding up by (simp add: s1(1) s2(1))
  have "\<exists>s'. for_range (normal_left_right q x y mi er sm cs pc) ?js s2 = Inr s'
      \<and> normal_inv ?f ?ok ?c0 x y pixels ((?V0 \<union> ?V1 ?is) \<union> ?V2 ?js) s'"
  proof (rule for_range_invariant [where I = "\<lambda>ds s. normal_inv ?f ?ok ?c0 x y pixels ((?V0 \<union> ?V1 ?is) \<union> ?V2 ds) s"])
    show "normal_inv ?f ?ok ?c0 x y pixels ((?V0 \<union> ?V1 ?is) \<union> ?V2 []) s2"
      using s2(2) by simp
  next
    fix ds :: "int list" and j and s :: nscan
    assume inv: "normal_inv ?f ?ok ?c0 x y pixels ((?V0 \<union> ?V1 ?is) \<union> ?V2 ds) s" and j: "j \<in> set ?js"
    have e: "(?V0 \<union> ?V1 ?is) \<union> ?V2 (ds @ [j]) = ((?V0 \<union> ?V1 ?is) \<union> ?V2 ds) \<union> {(?l, j), (?r, j)}"
      by auto
    from j r have b: "0 \<le> j" "j < int (length y)"
      by simp_all
    from normal_left_right_inv [OF inv b cols]
    show "\<exists>s'. normal_left_right q x y mi er sm cs pc j s = Inr s'
        \<and> normal_inv ?f ?ok ?c0 x y pixels ((?V0 \<union> ?V1 ?is) \<union> ?V2 (ds @ [j])) s'"
      unfolding e .
  qed
  then obtain s3 where s3: "for_range (normal_left_right q x y mi er sm cs pc) ?js s2 = Inr s3"
      "normal_inv ?f ?ok ?c0 x y pixels ((?V0 \<union> ?V1 ?is) \<union> ?V2 ?js) s3"
    by blast
  obtain a b where tl: "top_left q = (a, b)"
    by (cases "top_left q")
  have V: "(?V0 \<union> ?V1 ?is) \<union> ?V2 ?js = border_cells q"
    using r unfolding tl by (auto simp: border_cells_def cells_def tl)
  have c0: "?c0 = ?f ?tl"
    by simp
  from s3(2) have inv: "normal_inv ?f ?ok (?f ?tl) x y pixels (border_cells q) s3"
    unfolding V c0 .
  then have fp: "fits x y (ns_pixels s3)"
    and cells: "\<And>i j. 0 \<le> i \<Longrightarrow> i < int (length x) \<Longrightarrow> 0 \<le> j \<Longrightarrow> j < int (length y) \<Longrightarrow>
        ns_pixels s3 ! nat j ! nat i = (if (i, j) \<in> border_cells q then ?f (i, j) else pixels ! nat j ! nat i)"
    and fl: "ns_split s3 = (\<exists>p \<in> border_cells q. ?f p \<noteq> ?f ?tl)" "ns_border s3 = Some (?f ?tl)"
      "?ok (ns_memo s3)"
    by (simp_all add: normal_inv_def)
  have px: "ns_pixels s3 = scan_pixels ?f q pixels"
  proof (rule fits_ext [of x y])
    show "fits x y (ns_pixels s3)"
      by (rule fp)
    show "fits x y (scan_pixels ?f q pixels)"
      using assms(1) by simp
    fix i j assume b: "0 \<le> i" "i < int (length x)" "0 \<le> j" "j < int (length y)"
    show "ns_pixels s3 ! nat j ! nat i = scan_pixels ?f q pixels ! nat j ! nat i"
      using cells [OF b] False by (simp add: scan_pixels_nth [OF assms(1,2) b] scan_cells_def)
  qed
  from False have ns: "\<not> (QuadTree_rows q = 1 \<and> QuadTree_cols q = 1)"
    by (simp add: single_def)
  have "Normal_calculate_quadtree q pixels x y mi er sm cs pc memo
      = Inr ((3 < QuadTree_cols q \<and> 3 < QuadTree_rows q \<and> (\<exists>p \<in> border_cells q. ?f p \<noteq> ?f ?tl),
              Some (?f ?tl)), scan_pixels ?f q pixels, ns_memo s3, ns_calls s3)"
    unfolding Normal_calculate_quadtree_def Let_def
    by (subst if_not_P [OF ns]) (auto simp add: loop1 s3(1) fl px)
  with fl(3) show ?thesis
    by blast
qed


section \<open>The split verdict of the two plain scans\<close>




end
